theory Spec2Isabelle
  imports Complex_Main "HOL-Library.Char_ord" "HOL-Library.List_Lexorder"
begin

section \<open>Data model\<close>

text \<open>
  Items are Python strings. A Python \<open>frozenset\<close> of items is a finite set; it is modelled as
  a HOL set. Where the code iterates over a set (whose order Python leaves unspecified) the
  model iterates over \<open>sorted_list_of_set\<close>. Computed floats (supports, confidences, lifts)
  are modelled as reals. The \<open>minimum_support\<close> argument is a float that the caller supplies:
  it may be finite, an infinity or NaN, and \<open>int\<close> raises on the last three.
\<close>

type_synonym item = string

datatype error = TypeError | ZeroDivisionError | OverflowError | ValueError

datatype pyfloat = Finite real | PosInf | NegInf | NaN

record FrequentSet =
  items :: "item set"
  support :: nat
  relative_support :: real

record AssociationRule =
  condition :: "item set"
  consequence :: "item set"
  confidence :: real
  lift :: real

text \<open>
  The state of a \<open>FrequentPatterns\<close> object: the inverted index (a Python dict, kept as an
  association list in insertion order) and the transaction count.
\<close>

record store =
  transaction_index :: "(item \<times> nat set) list"
  transaction_count :: nat

section \<open>Memory.py: the in-memory inverted index\<close>

text \<open>
  \<open>if item not in transaction_index: transaction_index[item] = set()\<close> followed by
  \<open>transaction_index[item].add(transaction_row)\<close>.
\<close>

fun index_add :: "(item \<times> nat set) list \<Rightarrow> nat \<Rightarrow> item \<Rightarrow> (item \<times> nat set) list" where
  "index_add [] row it = [(it, {row})]"
| "index_add ((k, s) # rest) row it =
     (if k = it then (k, insert row s) # rest else (k, s) # index_add rest row it)"

text \<open>The outer loop of \<open>_index_transactions\<close>; \<open>transaction_row\<close> is incremented first.\<close>

fun index_loop ::
  "(item \<times> nat set) list \<Rightarrow> nat \<Rightarrow> item list list \<Rightarrow> (item \<times> nat set) list" where
  "index_loop idx row [] = idx"
| "index_loop idx row (transaction # rest) =
     index_loop (foldl (\<lambda>i it. index_add i (Suc row) it) idx transaction) (Suc row) rest"

definition index_transactions :: "item list list \<Rightarrow> (item \<times> nat set) list" where
  "index_transactions transactions = index_loop [] 0 transactions"

text \<open>
  The constructor. \<open>len(transactions)\<close> is evaluated before the \<open>None\<close> test, and
  \<open>len(None)\<close> raises \<open>TypeError\<close>.
\<close>

definition FrequentPatterns :: "item list list option \<Rightarrow> error + store" where
  "FrequentPatterns transactions =
     (case transactions of
        None \<Rightarrow> Inl TypeError
      | Some txs \<Rightarrow>
          Inr \<lparr>transaction_index = index_transactions txs, transaction_count = length txs\<rparr>)"

definition get_all_items :: "store \<Rightarrow> item list" where
  "get_all_items st = map fst (transaction_index st)"

text \<open>\<open>self._transaction_index.get(item, set())\<close>\<close>

definition item_transactions :: "store \<Rightarrow> item \<Rightarrow> nat set" where
  "item_transactions st it =
     (case map_of (transaction_index st) it of None \<Rightarrow> {} | Some s \<Rightarrow> s)"

section \<open>Abstracts.py: the support query\<close>

text \<open>
  \<open>reduce(set.intersection, [...])\<close> raises \<open>TypeError\<close> on an empty list; the division by
  \<open>self._transaction_count\<close> raises \<open>ZeroDivisionError\<close> when the count is zero.
\<close>

definition support_value :: "store \<Rightarrow> item set \<Rightarrow> error + (nat \<times> real)" where
  "support_value st candidate =
     (case map (item_transactions st) (sorted_list_of_set candidate) of
        [] \<Rightarrow> Inl TypeError
      | t # ts \<Rightarrow>
          (let transactions = foldl (\<inter>) t ts;
               support = card transactions
           in if transaction_count st = 0 then Inl ZeroDivisionError
              else Inr (support, real support / real (transaction_count st))))"

section \<open>The threshold of \<open>get_frequent_item_sets\<close>\<close>

text \<open>
  Python's \<open>int(x)\<close> on a float truncates a finite value towards zero; it raises
  \<open>OverflowError\<close> on an infinity and \<open>ValueError\<close> on NaN.
\<close>

definition truncate_towards_zero :: "real \<Rightarrow> int" where
  "truncate_towards_zero x = (if 0 \<le> x then \<lfloor>x\<rfloor> else \<lceil>x\<rceil>)"

definition py_int :: "pyfloat \<Rightarrow> error + int" where
  "py_int x =
     (case x of
        Finite r \<Rightarrow> Inr (truncate_towards_zero r)
      | PosInf \<Rightarrow> Inl OverflowError
      | NegInf \<Rightarrow> Inl OverflowError
      | NaN \<Rightarrow> Inl ValueError)"

text \<open>
  \<open>0.0 <= minimum_support <= 1.0\<close>: every comparison with NaN is false, \<open>inf <= 1.0\<close> and
  \<open>0.0 <= -inf\<close> are false.
\<close>

definition in_unit_interval :: "pyfloat \<Rightarrow> bool" where
  "in_unit_interval x = (case x of Finite r \<Rightarrow> 0 \<le> r \<and> r \<le> 1 | _ \<Rightarrow> False)"

text \<open>
  Lines 162 to 169: the threshold that the search compares against. In absolute mode
  \<open>int(minimum_support)\<close> comes first and may raise. In relative mode a value that passes the
  range test is finite.
\<close>

definition effective_minimum_support :: "store \<Rightarrow> pyfloat \<Rightarrow> bool \<Rightarrow> error + real" where
  "effective_minimum_support st minimum_support is_relative_support =
     (if is_relative_support then
        (if in_unit_interval minimum_support
         then (case minimum_support of Finite r \<Rightarrow> Inr r | _ \<Rightarrow> Inr 1)
         else Inr 1)
      else
        (case py_int minimum_support of
           Inl e \<Rightarrow> Inl e
         | Inr m \<Rightarrow>
             if m < 0 \<or> m > int (transaction_count st)
             then Inr (real (transaction_count st)) else Inr (real_of_int m)))"

section \<open>Library functions of Python\<close>

text \<open>\<open>itertools.combinations(xs, k)\<close>: the sub-sequences of length \<open>k\<close>, in lexicographic
  order of positions.\<close>

fun combinations :: "'a list \<Rightarrow> nat \<Rightarrow> 'a list list" where
  "combinations xs 0 = [[]]"
| "combinations [] (Suc k) = []"
| "combinations (x # xs) (Suc k) = map ((#) x) (combinations xs k) @ combinations xs (Suc k)"

text \<open>
  \<open>sorted\<close> is stable and compares with \<open>__lt__\<close> only: an element is moved behind a later
  one only when the later one compared smaller. With \<open>reverse=True\<close> the list is reversed,
  sorted, and reversed again.
\<close>

fun insort_lt :: "('a \<Rightarrow> 'a \<Rightarrow> bool) \<Rightarrow> 'a \<Rightarrow> 'a list \<Rightarrow> 'a list" where
  "insort_lt lt x [] = [x]"
| "insort_lt lt x (y # ys) = (if lt y x then y # insort_lt lt x ys else x # y # ys)"

definition py_sort :: "('a \<Rightarrow> 'a \<Rightarrow> bool) \<Rightarrow> 'a list \<Rightarrow> 'a list" where
  "py_sort lt xs = foldr (insort_lt lt) xs []"

definition py_sorted :: "('a \<Rightarrow> 'a \<Rightarrow> bool) \<Rightarrow> bool \<Rightarrow> 'a list \<Rightarrow> 'a list" where
  "py_sorted lt reverse xs = (if reverse then rev (py_sort lt (rev xs)) else py_sort lt xs)"

text \<open>A loop whose body may raise: the first error ends the loop.\<close>

fun fold_err :: "('a \<Rightarrow> 'b \<Rightarrow> error + 'b) \<Rightarrow> 'a list \<Rightarrow> 'b \<Rightarrow> error + 'b" where
  "fold_err f [] s = Inr s"
| "fold_err f (x # xs) s = (case f x s of Inl e \<Rightarrow> Inl e | Inr s' \<Rightarrow> fold_err f xs s')"

text \<open>\<open>FrequentSet.__lt__\<close> and \<open>AssociationRule.__lt__\<close>\<close>

definition FrequentSet_lt :: "FrequentSet \<Rightarrow> FrequentSet \<Rightarrow> bool" where
  "FrequentSet_lt self other = (support self < support other)"

definition AssociationRule_lt :: "AssociationRule \<Rightarrow> AssociationRule \<Rightarrow> bool" where
  "AssociationRule_lt self other =
     (confidence self < confidence other \<and> lift self < lift other)"

section \<open>\<open>get_frequent_item_sets\<close>\<close>

definition unique_items :: "FrequentSet list \<Rightarrow> item set" where
  "unique_items sets = \<Union> (set (map items sets))"

definition previous_frequent_sets :: "FrequentSet list \<Rightarrow> item set set" where
  "previous_frequent_sets sets = set (map items sets)"

definition possible_candidate_sets :: "FrequentSet list \<Rightarrow> nat \<Rightarrow> item set list" where
  "possible_candidate_sets sets iteration =
     map set (combinations (sorted_list_of_set (unique_items sets)) (iteration + 1))"

text \<open>The inner loop of lines 219 to 223: some sub-combination is not a previous frequent set.\<close>

definition discard_candidate :: "item set set \<Rightarrow> item set \<Rightarrow> nat \<Rightarrow> bool" where
  "discard_candidate previous candidate iteration =
     list_ex (\<lambda>item_subset. set item_subset \<notin> previous)
       (combinations (sorted_list_of_set candidate) iteration)"

definition candidate_sets :: "FrequentSet list \<Rightarrow> nat \<Rightarrow> item set list" where
  "candidate_sets sets iteration =
     (if iteration > 0
      then filter (\<lambda>candidate. \<not> discard_candidate (previous_frequent_sets sets) candidate iteration)
             (possible_candidate_sets sets iteration)
      else possible_candidate_sets sets iteration)"

text \<open>Lines 232 to 250: the supports of the candidates, in order; the first error is raised.\<close>

fun current_iteration_frequent_sets ::
  "store \<Rightarrow> bool \<Rightarrow> real \<Rightarrow> item set list \<Rightarrow> error + FrequentSet list" where
  "current_iteration_frequent_sets st is_relative_support minimum_support [] = Inr []"
| "current_iteration_frequent_sets st is_relative_support minimum_support (candidate # rest) =
     (case support_value st candidate of
        Inl e \<Rightarrow> Inl e
      | Inr (sval, rval) \<Rightarrow>
          (case current_iteration_frequent_sets st is_relative_support minimum_support rest of
             Inl e \<Rightarrow> Inl e
           | Inr frequent \<Rightarrow>
               (let not_minimum_support =
                      (if is_relative_support then rval < minimum_support
                       else real sval < minimum_support)
                in if not_minimum_support then Inr frequent
                   else Inr (\<lparr>items = candidate, support = sval,
                               relative_support = rval\<rparr> # frequent))))"

text \<open>
  The \<open>while\<close> loop of lines 189 to 256. \<open>sets\<close> is \<open>iterations_frequent_sets[iteration]\<close>;
  the result lists the levels stored at \<open>iteration + 1\<close>, \<open>iteration + 2\<close>, ... The loop ends
  at the first level without a frequent set.
\<close>

function mine_loop ::
  "store \<Rightarrow> bool \<Rightarrow> real \<Rightarrow> nat \<Rightarrow> FrequentSet list \<Rightarrow> error + FrequentSet list list" where
  "mine_loop st is_relative_support minimum_support iteration sets =
     (case current_iteration_frequent_sets st is_relative_support minimum_support
             (candidate_sets sets iteration) of
        Inl e \<Rightarrow> Inl e
      | Inr current \<Rightarrow>
          (if length current > 0
           then (case mine_loop st is_relative_support minimum_support (iteration + 1) current of
                   Inl e \<Rightarrow> Inl e
                 | Inr later \<Rightarrow> Inr (current # later))
           else Inr []))"
  by pat_completeness auto
termination
proof (relation "measure (\<lambda>(st, r, m, k, sets). card (unique_items sets) - k)", goal_cases)
  case 1
  show ?case by simp
next
  case (2 st r m k sets cur)
  have len: "\<And>(xs :: item list) n c. c \<in> set (combinations xs n) \<Longrightarrow> length c = n \<and> set c \<subseteq> set xs \<and> n \<le> length xs"
  proof -
    fix xs :: "item list" and n c
    show "c \<in> set (combinations xs n) \<Longrightarrow> length c = n \<and> set c \<subseteq> set xs \<and> n \<le> length xs"
      by (induction xs n arbitrary: c rule: combinations.induct) fastforce+
  qed
  have sub: "\<And>cs fr g. current_iteration_frequent_sets st r m cs = Inr fr \<Longrightarrow> g \<in> set fr \<Longrightarrow> items g \<in> set cs"
  proof -
    fix cs fr g
    show "current_iteration_frequent_sets st r m cs = Inr fr \<Longrightarrow> g \<in> set fr \<Longrightarrow> items g \<in> set cs"
      by (induction cs arbitrary: fr) (fastforce split: sum.splits prod.splits if_splits simp: Let_def)+
  qed
  let ?U = "unique_items sets"
  let ?L = "sorted_list_of_set ?U"
  from 2 obtain f where f: "f \<in> set cur" by (cases cur) auto
  have cand: "set (candidate_sets sets k) \<subseteq> set (possible_candidate_sets sets k)"
    by (auto simp: candidate_sets_def)
  have all: "\<And>g. g \<in> set cur \<Longrightarrow> \<exists>c \<in> set (combinations ?L (k + 1)). items g = set c"
    using sub[OF 2(1)] cand by (fastforce simp: possible_candidate_sets_def)
  from all[OF f] obtain c where c: "c \<in> set (combinations ?L (k + 1))" by blast
  from len[OF c] have kl: "k + 1 \<le> length ?L" by simp
  have fin: "finite ?U"
  proof (rule ccontr)
    assume "infinite ?U"
    then have "?L = []" by simp
    with kl show False by simp
  qed
  have "unique_items cur \<subseteq> ?U"
  proof
    fix x assume "x \<in> unique_items cur"
    then obtain g where g: "g \<in> set cur" "x \<in> items g" by (auto simp: unique_items_def)
    from all[OF g(1)] obtain d where d: "d \<in> set (combinations ?L (k + 1))" "items g = set d" by blast
    from len[OF d(1)] fin g(2) d(2) show "x \<in> ?U" by auto
  qed
  then have "card (unique_items cur) \<le> card ?U" using fin by (simp add: card_mono)
  moreover have "k < card ?U" using kl fin by simp
  ultimately show ?case by simp
qed

declare mine_loop.simps [simp del]

text \<open>Lines 177 to 184: the placeholder level 0, one singleton per indexed item.\<close>

definition initial_set :: "store \<Rightarrow> bool \<Rightarrow> FrequentSet list" where
  "initial_set st is_relative_support =
     map (\<lambda>key. \<lparr>items = {key}, support = 0,
                 relative_support = (if is_relative_support then 1 else 0)\<rparr>)
       (get_all_items st)"

text \<open>The levels 1, 2, ... that remain after \<open>del iterations_frequent_sets[0]\<close>.\<close>

definition iterations_frequent_sets ::
  "store \<Rightarrow> pyfloat \<Rightarrow> bool \<Rightarrow> error + FrequentSet list list" where
  "iterations_frequent_sets st minimum_support is_relative_support =
     (case effective_minimum_support st minimum_support is_relative_support of
        Inl e \<Rightarrow> Inl e
      | Inr threshold \<Rightarrow>
          mine_loop st is_relative_support threshold 0 (initial_set st is_relative_support))"

text \<open>
  Lines 265 to 277. \<open>FrequentSet\<close> objects are compared by identity in \<open>pruned_sets\<close>; the
  model identifies an object with its position in \<open>joined_frequent_sets\<close>.
\<close>

definition prune_step :: "(nat \<times> FrequentSet) list \<Rightarrow> nat set \<Rightarrow> nat set" where
  "prune_step pair pruned =
     (case pair of
        [(i1, set1), (i2, set2)] \<Rightarrow>
          (if i1 \<notin> pruned \<and> items set1 \<subseteq> items set2 then insert i1 pruned else pruned)
      | _ \<Rightarrow> pruned)"

definition pruned_sets :: "bool \<Rightarrow> FrequentSet list \<Rightarrow> nat set" where
  "pruned_sets prune joined_frequent_sets =
     (if prune then fold prune_step (combinations (enumerate 0 joined_frequent_sets) 2) {}
      else {})"

definition cleaned_frequent_sets :: "bool \<Rightarrow> FrequentSet list \<Rightarrow> FrequentSet list" where
  "cleaned_frequent_sets prune joined_frequent_sets =
     map snd (filter (\<lambda>(i, new_item). i \<notin> pruned_sets prune joined_frequent_sets)
                (enumerate 0 joined_frequent_sets))"

definition get_frequent_item_sets ::
  "store \<Rightarrow> pyfloat \<Rightarrow> bool \<Rightarrow> bool \<Rightarrow> error + FrequentSet list" where
  "get_frequent_item_sets st minimum_support is_relative_support prune =
     (case iterations_frequent_sets st minimum_support is_relative_support of
        Inl e \<Rightarrow> Inl e
      | Inr levels \<Rightarrow>
          Inr (py_sorted FrequentSet_lt True (cleaned_frequent_sets prune (concat levels))))"

section \<open>\<open>association_rules\<close>\<close>

definition maximum_cardinality :: "FrequentSet list \<Rightarrow> nat" where
  "maximum_cardinality frequent_item_sets =
     (if length frequent_item_sets > 0
      then Max (set (map (\<lambda>item_set. card (items item_set)) frequent_item_sets))
      else 0)"

text \<open>The subsets tried by the three nested loops of lines 318 to 326, in order.\<close>

definition subset_attempts :: "FrequentSet list \<Rightarrow> item set list" where
  "subset_attempts frequent_item_sets =
     concat (map (\<lambda>item_set.
       concat (map (\<lambda>subset_index.
                 map set (combinations (sorted_list_of_set (items item_set)) subset_index))
               [1..<maximum_cardinality frequent_item_sets]))
       frequent_item_sets)"

text \<open>
  Lines 328 to 338. \<open>global_item_subsets\<close> always holds the item sets of
  \<open>global_item_subsets_support\<close>, so the list alone is the state.
\<close>

definition store_subset :: "store \<Rightarrow> item set \<Rightarrow> FrequentSet list \<Rightarrow> error + FrequentSet list" where
  "store_subset st set_attempt pool =
     (if set_attempt \<in> set (map items pool) then Inr pool
      else (case support_value st set_attempt of
              Inl e \<Rightarrow> Inl e
            | Inr (sval, rval) \<Rightarrow>
                Inr (pool @ [\<lparr>items = set_attempt, support = sval, relative_support = rval\<rparr>])))"

definition global_item_subsets_support :: "store \<Rightarrow> FrequentSet list \<Rightarrow> error + FrequentSet list" where
  "global_item_subsets_support st frequent_item_sets =
     (if maximum_cardinality frequent_item_sets > 1
      then fold_err (store_subset st) (subset_attempts frequent_item_sets) []
      else Inr [])"

text \<open>
  The body of the two index loops, lines 357 to 392. Both divisions raise
  \<open>ZeroDivisionError\<close> on a zero divisor; nothing tests the divisor first.
\<close>

definition rule_step ::
  "store \<Rightarrow> real \<Rightarrow> real \<Rightarrow> FrequentSet list \<Rightarrow> nat \<times> nat \<Rightarrow> AssociationRule list
     \<Rightarrow> error + AssociationRule list" where
  "rule_step st minimum_confidence minimum_lift pool idx rules =
     (case idx of (global_index1, global_index2) \<Rightarrow>
        (let global_subset_a = pool ! global_index1;
             subset_a = items global_subset_a;
             support_a = support global_subset_a
         in if global_index1 = global_index2 then Inr rules
            else
              (let global_subset_b = pool ! global_index2;
                   subset_b = items global_subset_b
               in if subset_a \<inter> subset_b = {} then
                    (case support_value st (subset_a \<union> subset_b) of
                       Inl e \<Rightarrow> Inl e
                     | Inr (support_a_union_b, support_a_union_b_relative) \<Rightarrow>
                         (if support_a = 0 then Inl ZeroDivisionError
                          else
                            (let rule_support = real support_a_union_b / real support_a
                             in if real support_a * relative_support global_subset_b = 0
                                then Inl ZeroDivisionError
                                else
                                  (let lift_value =
                                         real support_a_union_b /
                                           (real support_a * relative_support global_subset_b)
                                   in if minimum_confidence \<le> rule_support \<and>
                                         minimum_lift \<le> lift_value
                                      then Inr (rules @
                                             [\<lparr>condition = subset_a, consequence = subset_b,
                                               confidence = rule_support, lift = lift_value\<rparr>])
                                      else Inr rules))))
                  else Inr rules)))"

text \<open>Lines 340 to 392: all ordered index pairs, the first index in the outer loop.\<close>

definition collect_rules ::
  "store \<Rightarrow> real \<Rightarrow> real \<Rightarrow> FrequentSet list \<Rightarrow> error + AssociationRule list" where
  "collect_rules st minimum_confidence minimum_lift pool =
     (if length pool > 0
      then fold_err (rule_step st minimum_confidence minimum_lift pool)
             (List.product [0..<length pool] [0..<length pool]) []
      else Inr [])"

text \<open>
  Lines 395 to 402. \<open>association_rules_confidence[rule_index]\<close> is the confidence of
  \<open>association_rules[rule_index]\<close>; its keys are sorted on that value, then the rules are
  sorted again with \<open>AssociationRule.__lt__\<close>.
\<close>

definition sort_rules :: "AssociationRule list \<Rightarrow> AssociationRule list" where
  "sort_rules rules =
     (let confidence_sorted =
            py_sorted (\<lambda>i j. confidence (rules ! i) < confidence (rules ! j)) True
              [0..<length rules]
      in py_sorted AssociationRule_lt True
           (map (\<lambda>rule_index. rules ! rule_index) confidence_sorted))"

definition association_rules ::
  "store \<Rightarrow> FrequentSet list \<Rightarrow> real \<Rightarrow> real \<Rightarrow> error + AssociationRule list" where
  "association_rules st frequent_item_sets minimum_confidence minimum_lift =
     (case global_item_subsets_support st frequent_item_sets of
        Inl e \<Rightarrow> Inl e
      | Inr pool \<Rightarrow>
          (case collect_rules st minimum_confidence minimum_lift pool of
             Inl e \<Rightarrow> Inl e
           | Inr rules \<Rightarrow> Inr (sort_rules rules)))"

section \<open>The constructor\<close>

lemma FrequentPatterns_Some:
  "FrequentPatterns (Some txs) = Inr st \<longleftrightarrow>
     st = \<lparr>transaction_index = index_transactions txs, transaction_count = length txs\<rparr>"
  by (auto simp: FrequentPatterns_def)

text \<open>
  C10: constructing a store with the transactions argument omitted (the default \<open>None\<close>)
  raises \<open>TypeError\<close>, because the length is taken before the \<open>None\<close> guard; so every store
  that was constructed was given a transaction list, whose length is its transaction count.
\<close>

theorem constructor_None_TypeError:
  "FrequentPatterns None = Inl TypeError \<and>
   (\<forall>transactions st. FrequentPatterns transactions = Inr st \<longrightarrow>
      (\<exists>txs. transactions = Some txs \<and> transaction_count st = length txs))"
  by (auto simp: FrequentPatterns_def split: option.splits)

theorem constructor_None_TypeError_witness:
  "FrequentPatterns (Some [[''a'']]) =
     Inr \<lparr>transaction_index = [(''a'', {1})], transaction_count = 1\<rparr> \<and>
   (\<exists>txs. Some [[''a'']] = Some txs \<and>
      transaction_count \<lparr>transaction_index = [(''a'', {1})], transaction_count = 1\<rparr> =
        length txs)"
proof -
  have h: "FrequentPatterns (Some [[''a'']]) =
      Inr \<lparr>transaction_index = [(''a'', {1})], transaction_count = 1\<rparr>"
    by (simp add: FrequentPatterns_def index_transactions_def)
  from constructor_None_TypeError h show ?thesis by blast
qed

section \<open>The threshold\<close>

lemma truncate_neg_half: "truncate_towards_zero (- (1 / 2)) = 0"
proof -
  have "\<lceil>- (1 / 2) :: real\<rceil> = 0" by (simp add: ceiling_eq_iff)
  then show ?thesis by (simp add: truncate_towards_zero_def)
qed

lemma truncate_le: "x \<le> - 1 \<Longrightarrow> truncate_towards_zero x < 0"
  unfolding truncate_towards_zero_def by (simp add: ceiling_less_iff)

lemma truncate_ge: "real n + 1 \<le> x \<Longrightarrow> int n < truncate_towards_zero x"
  unfolding truncate_towards_zero_def by (auto simp: less_floor_iff)

lemma truncate_between: "- 1 < x \<Longrightarrow> x < 0 \<Longrightarrow> truncate_towards_zero x = 0"
  unfolding truncate_towards_zero_def by (auto intro!: ceiling_unique)

lemma truncate_whole: "truncate_towards_zero (real_of_int k) = k"
  by (simp add: truncate_towards_zero_def)

lemma effective_relative:
  "effective_minimum_support st (Finite r) True = Inr (if 0 \<le> r \<and> r \<le> 1 then r else 1)"
  "effective_minimum_support st PosInf True = Inr 1"
  "effective_minimum_support st NegInf True = Inr 1"
  "effective_minimum_support st NaN True = Inr 1"
  by (simp_all add: effective_minimum_support_def in_unit_interval_def)

lemma effective_relative_Inr:
  "\<exists>threshold. effective_minimum_support st minimum_support True = Inr threshold"
  by (cases minimum_support) (simp_all add: effective_relative)

lemma effective_absolute_finite:
  "effective_minimum_support st (Finite r) False =
     Inr (if truncate_towards_zero r < 0 \<or> int (transaction_count st) < truncate_towards_zero r
          then real (transaction_count st) else real_of_int (truncate_towards_zero r))"
  by (simp add: effective_minimum_support_def py_int_def)

lemma effective_absolute_nonfinite:
  "effective_minimum_support st PosInf False = Inl OverflowError"
  "effective_minimum_support st NegInf False = Inl OverflowError"
  "effective_minimum_support st NaN False = Inl ValueError"
  by (simp_all add: effective_minimum_support_def py_int_def)

lemma effective_absolute_clamped:
  "r \<le> - 1 \<or> real (transaction_count st) + 1 \<le> r \<Longrightarrow>
     effective_minimum_support st (Finite r) False = Inr (real (transaction_count st))"
  using truncate_le[of r] truncate_ge[of "transaction_count st" r]
  by (auto simp: effective_absolute_finite)

lemma effective_absolute_between:
  "- 1 < r \<Longrightarrow> r < 0 \<Longrightarrow> effective_minimum_support st (Finite r) False = Inr 0"
  using truncate_between[of r] by (simp add: effective_absolute_finite)

text \<open>
  C5 as stated fails twice. In absolute mode the threshold is truncated towards zero before
  the range test, so \<open>-0.5\<close>, which is below 0, becomes 0 and is not replaced by the transaction
  count; and an infinite threshold, which is above every count, is not clamped: \<open>int\<close> raises
  \<open>OverflowError\<close>.
\<close>

theorem threshold_counterexample:
  "FrequentPatterns (Some [[''a'']]) =
     Inr \<lparr>transaction_index = [(''a'', {1})], transaction_count = 1\<rparr> \<and>
   (- 1 / 2 :: real) < 0 \<and>
   effective_minimum_support \<lparr>transaction_index = [(''a'', {1})], transaction_count = 1\<rparr>
       (Finite (- 1 / 2)) False = Inr 0 \<and>
   effective_minimum_support \<lparr>transaction_index = [(''a'', {1})], transaction_count = 1\<rparr>
       (Finite (- 1 / 2)) False
     \<noteq> Inr (real (transaction_count
              \<lparr>transaction_index = [(''a'', {1})], transaction_count = 1\<rparr>)) \<and>
   effective_minimum_support \<lparr>transaction_index = [(''a'', {1})], transaction_count = 1\<rparr>
       PosInf False = Inl OverflowError"
  by (simp add: FrequentPatterns_def index_transactions_def effective_absolute_between
      effective_absolute_nonfinite)

section \<open>The empty store\<close>

lemma mine_loop_Nil: "mine_loop st r m 0 [] = Inr []"
  by (subst mine_loop.simps)
     (simp add: candidate_sets_def possible_candidate_sets_def unique_items_def)

lemma empty_store_levels:
  assumes "effective_minimum_support \<lparr>transaction_index = [], transaction_count = 0\<rparr>
             minimum_support is_relative_support = Inr threshold"
  shows "get_frequent_item_sets \<lparr>transaction_index = [], transaction_count = 0\<rparr>
           minimum_support is_relative_support prune = Inr []"
  using assms
  by (simp add: get_frequent_item_sets_def iterations_frequent_sets_def initial_set_def
      get_all_items_def mine_loop_Nil cleaned_frequent_sets_def enumerate_eq_zip py_sorted_def
      py_sort_def)

lemma empty_store_raises:
  assumes "effective_minimum_support \<lparr>transaction_index = [], transaction_count = 0\<rparr>
             minimum_support is_relative_support = Inl e"
  shows "get_frequent_item_sets \<lparr>transaction_index = [], transaction_count = 0\<rparr>
           minimum_support is_relative_support prune = Inl e"
  using assms by (simp add: get_frequent_item_sets_def iterations_frequent_sets_def)

text \<open>
  C8 as stated fails: in absolute mode \<open>int(minimum_support)\<close> runs before anything else, so on
  the empty store an infinite threshold raises \<open>OverflowError\<close> and NaN raises \<open>ValueError\<close>.
\<close>

theorem empty_store_counterexample:
  "FrequentPatterns (Some []) = Inr \<lparr>transaction_index = [], transaction_count = 0\<rparr> \<and>
   get_frequent_item_sets \<lparr>transaction_index = [], transaction_count = 0\<rparr> PosInf False True =
     Inl OverflowError \<and>
   get_frequent_item_sets \<lparr>transaction_index = [], transaction_count = 0\<rparr> NaN False True =
     Inl ValueError"
  by (simp add: FrequentPatterns_def index_transactions_def
      empty_store_raises[OF effective_absolute_nonfinite(1)]
      empty_store_raises[OF effective_absolute_nonfinite(3)])

text \<open>
  C8, amended: on the store built from an empty transaction list, \<open>get_frequent_item_sets\<close>
  returns the empty sequence and raises nothing (no candidate exists, so no support and no
  division by the count is ever computed) for every prune flag, for every threshold in
  relative mode and for every finite threshold in absolute mode. In absolute mode an infinite
  threshold raises \<open>OverflowError\<close> and NaN raises \<open>ValueError\<close>.
\<close>

theorem empty_store_no_frequent_sets:
  "\<exists>st. FrequentPatterns (Some []) = Inr st \<and>
     (\<forall>minimum_support prune. get_frequent_item_sets st minimum_support True prune = Inr []) \<and>
     (\<forall>r prune. get_frequent_item_sets st (Finite r) False prune = Inr []) \<and>
     (\<forall>prune. get_frequent_item_sets st PosInf False prune = Inl OverflowError \<and>
        get_frequent_item_sets st NegInf False prune = Inl OverflowError \<and>
        get_frequent_item_sets st NaN False prune = Inl ValueError)"
proof (intro exI conjI allI)
  show "FrequentPatterns (Some []) = Inr \<lparr>transaction_index = [], transaction_count = 0\<rparr>"
    by (simp add: FrequentPatterns_def index_transactions_def)
next
  fix minimum_support prune
  obtain threshold where "effective_minimum_support
      \<lparr>transaction_index = [], transaction_count = 0\<rparr> minimum_support True = Inr threshold"
    using effective_relative_Inr by blast
  then show "get_frequent_item_sets \<lparr>transaction_index = [], transaction_count = 0\<rparr>
      minimum_support True prune = Inr []" by (rule empty_store_levels)
next
  fix r prune
  show "get_frequent_item_sets \<lparr>transaction_index = [], transaction_count = 0\<rparr>
      (Finite r) False prune = Inr []"
    by (rule empty_store_levels[OF effective_absolute_finite])
next
  fix prune
  show "get_frequent_item_sets \<lparr>transaction_index = [], transaction_count = 0\<rparr>
      PosInf False prune = Inl OverflowError"
    by (rule empty_store_raises[OF effective_absolute_nonfinite(1)])
  show "get_frequent_item_sets \<lparr>transaction_index = [], transaction_count = 0\<rparr>
      NegInf False prune = Inl OverflowError"
    by (rule empty_store_raises[OF effective_absolute_nonfinite(2)])
  show "get_frequent_item_sets \<lparr>transaction_index = [], transaction_count = 0\<rparr>
      NaN False prune = Inl ValueError"
    by (rule empty_store_raises[OF effective_absolute_nonfinite(3)])
qed

section \<open>Combinations\<close>

lemma combinations_Suc_mem:
  "c \<in> set (combinations (x # xs) (Suc k)) \<longleftrightarrow>
     (\<exists>c'. c = x # c' \<and> c' \<in> set (combinations xs k)) \<or> c \<in> set (combinations xs (Suc k))"
  by (simp add: image_iff) blast

lemma combinations_length: "c \<in> set (combinations xs k) \<Longrightarrow> length c = k"
proof (induction xs k arbitrary: c rule: combinations.induct)
  case (3 x xs k)
  from 3(3) consider c' where "c = x # c'" "c' \<in> set (combinations xs k)"
    | "c \<in> set (combinations xs (Suc k))"
    unfolding combinations_Suc_mem by auto
  then show ?case
  proof cases
    case 1
    then show ?thesis using 3(1)[of c'] by simp
  next
    case 2
    then show ?thesis using 3(2)[of c] by simp
  qed
qed simp_all

lemma combinations_subset: "c \<in> set (combinations xs k) \<Longrightarrow> set c \<subseteq> set xs"
proof (induction xs k arbitrary: c rule: combinations.induct)
  case (3 x xs k)
  from 3(3) consider c' where "c = x # c'" "c' \<in> set (combinations xs k)"
    | "c \<in> set (combinations xs (Suc k))"
    unfolding combinations_Suc_mem by auto
  then show ?case
  proof cases
    case 1
    then show ?thesis using 3(1)[of c'] by auto
  next
    case 2
    then show ?thesis using 3(2)[of c] by auto
  qed
qed simp_all

lemma combinations_distinct:
  "distinct xs \<Longrightarrow> c \<in> set (combinations xs k) \<Longrightarrow> distinct c"
proof (induction xs k arbitrary: c rule: combinations.induct)
  case (3 x xs k)
  from 3(4) consider c' where "c = x # c'" "c' \<in> set (combinations xs k)"
    | "c \<in> set (combinations xs (Suc k))"
    unfolding combinations_Suc_mem by auto
  then show ?case
  proof cases
    case 1
    have "distinct c'" using 3(1)[of c'] 3(3) 1(2) by simp
    moreover have "x \<notin> set c'" using combinations_subset[OF 1(2)] 3(3) by auto
    ultimately show ?thesis using 1(1) by simp
  next
    case 2
    then show ?thesis using 3(2)[of c] 3(3) by simp
  qed
qed simp_all

lemma combinations_card:
  "distinct xs \<Longrightarrow> c \<in> set (combinations xs k) \<Longrightarrow> card (set c) = k"
  using combinations_distinct combinations_length distinct_card by metis

lemma combinations_complete:
  "distinct xs \<Longrightarrow> T \<subseteq> set xs \<Longrightarrow> card T = k \<Longrightarrow> T \<in> set ` set (combinations xs k)"
proof (induction xs k arbitrary: T rule: combinations.induct)
  case (1 xs)
  then have "finite T" using finite_subset by blast
  with 1 show ?case by simp
next
  case (2 k)
  then show ?case by simp
next
  case (3 x xs k)
  have fin: "finite T" using 3(4) finite_subset by blast
  show ?case
  proof (cases "x \<in> T")
    case True
    let ?T' = "T - {x}"
    have "?T' \<subseteq> set xs" using 3(4) by auto
    moreover have "card ?T' = k" using 3(5) True fin by simp
    ultimately have "?T' \<in> set ` set (combinations xs k)" using 3(1) 3(3) by simp
    then obtain c where c: "c \<in> set (combinations xs k)" "set c = ?T'" by auto
    then have "set (x # c) = T" using True by auto
    with c(1) show ?thesis by (auto simp: image_iff intro!: bexI[of _ "x # c"])
  next
    case False
    then have "T \<subseteq> set xs" using 3(4) by auto
    then have "T \<in> set ` set (combinations xs (Suc k))" using 3(2) 3(3) 3(5) by simp
    then show ?thesis by auto
  qed
qed

lemma combinations_sets:
  "distinct xs \<Longrightarrow> set ` set (combinations xs k) = {T. T \<subseteq> set xs \<and> card T = k}"
  using combinations_complete combinations_subset combinations_card by (auto simp: image_iff) blast+

lemma combinations_of_set:
  "finite A \<Longrightarrow> set ` set (combinations (sorted_list_of_set A) k) = {T. T \<subseteq> A \<and> card T = k}"
  using combinations_sets[of "sorted_list_of_set A" k] by simp

section \<open>The support query on a constructed store\<close>

lemma foldl_Int: "foldl (\<inter>) t ts = t \<inter> \<Inter> (set ts)"
  by (induction ts arbitrary: t) auto

lemma support_value_eq:
  assumes "finite C" "C \<noteq> {}" "transaction_count st \<noteq> 0"
  shows "support_value st C =
     Inr (card (\<Inter>x\<in>C. item_transactions st x),
          real (card (\<Inter>x\<in>C. item_transactions st x)) / real (transaction_count st))"
proof -
  obtain x xs where xs: "sorted_list_of_set C = x # xs"
    using assms(1,2) by (cases "sorted_list_of_set C") auto
  have "set (x # xs) = C" using xs assms(1) by (metis set_sorted_list_of_set)
  then have "(\<Inter>y\<in>C. item_transactions st y) =
      item_transactions st x \<inter> \<Inter> (set (map (item_transactions st) xs))"
    by auto
  then show ?thesis using assms(3) xs by (simp add: support_value_def foldl_Int Let_def)
qed

lemma support_value_error:
  "support_value st C = Inl e \<Longrightarrow> finite C \<Longrightarrow> C \<noteq> {} \<Longrightarrow> e = ZeroDivisionError \<and> transaction_count st = 0"
  by (cases "transaction_count st = 0")
     (auto simp: support_value_def Let_def support_value_eq split: list.splits)

lemma index_add_finite:
  "\<forall>p\<in>set idx. finite (snd p) \<Longrightarrow> \<forall>p\<in>set (index_add idx row it). finite (snd p)"
  by (induction idx row it rule: index_add.induct) auto

lemma index_add_foldl_finite:
  "\<forall>p\<in>set idx. finite (snd p) \<Longrightarrow>
   \<forall>p\<in>set (foldl (\<lambda>i it. index_add i row it) idx t). finite (snd p)"
proof (induction t arbitrary: idx)
  case (Cons a t)
  show ?case using Cons.IH[OF index_add_finite[OF Cons.prems]] by simp
qed simp

lemma index_loop_finite:
  "\<forall>p\<in>set idx. finite (snd p) \<Longrightarrow> \<forall>p\<in>set (index_loop idx row txs). finite (snd p)"
  by (induction idx row txs rule: index_loop.induct) (simp_all add: index_add_foldl_finite)


lemma item_transactions_finite:
  assumes "FrequentPatterns (Some txs) = Inr st"
  shows "finite (item_transactions st x)"
proof -
  have "\<forall>p\<in>set (transaction_index st). finite (snd p)"
    using assms index_loop_finite[of "[]" 0 txs]
    by (auto simp: FrequentPatterns_def index_transactions_def)
  then show ?thesis
    by (auto simp: item_transactions_def split: option.splits dest!: map_of_SomeD)
qed

lemma indexed_count_pos:
  assumes "FrequentPatterns (Some txs) = Inr st" "get_all_items st \<noteq> []"
  shows "transaction_count st \<noteq> 0"
  using assms by (auto simp: FrequentPatterns_def index_transactions_def get_all_items_def)

text \<open>
  C6: on a constructed store, for non-empty item sets \<open>A \<subseteq> B\<close> of indexed items, the support
  query succeeds on both and the support (and the relative support) of \<open>B\<close> is at most that
  of \<open>A\<close>.
\<close>

theorem support_monotone:
  assumes "FrequentPatterns (Some txs) = Inr st"
    and "A \<noteq> {}" and "A \<subseteq> B" and "B \<subseteq> set (get_all_items st)"
  shows "\<exists>sa ra sb rb. support_value st A = Inr (sa, ra) \<and> support_value st B = Inr (sb, rb) \<and>
           sb \<le> sa \<and> rb \<le> ra"
proof -
  have finB: "finite B" using assms(4) finite_subset by blast
  then have finA: "finite A" using assms(3) finite_subset by blast
  have neB: "B \<noteq> {}" using assms(2,3) by auto
  then have "get_all_items st \<noteq> []" using assms(4) by auto
  then have cnt: "transaction_count st \<noteq> 0" using indexed_count_pos[OF assms(1)] by simp
  let ?TA = "\<Inter>x\<in>A. item_transactions st x"
  let ?TB = "\<Inter>x\<in>B. item_transactions st x"
  have "finite ?TA" using assms(2) item_transactions_finite[OF assms(1)] by auto
  moreover have "?TB \<subseteq> ?TA" using assms(3) by auto
  ultimately have le: "card ?TB \<le> card ?TA" by (rule card_mono)
  then have "real (card ?TB) / real (transaction_count st) \<le> real (card ?TA) / real (transaction_count st)"
    by (simp add: divide_right_mono)
  with le show ?thesis
    using support_value_eq[OF finA assms(2) cnt] support_value_eq[OF finB neB cnt] by simp
qed

theorem support_monotone_witness:
  "\<exists>sa ra sb rb.
     support_value \<lparr>transaction_index = [(''a'', {2, 1}), (''b'', {1})], transaction_count = 2\<rparr>
       {''a''} = Inr (sa, ra) \<and>
     support_value \<lparr>transaction_index = [(''a'', {2, 1}), (''b'', {1})], transaction_count = 2\<rparr>
       {''a'', ''b''} = Inr (sb, rb) \<and> sb \<le> sa \<and> rb \<le> ra"
proof -
  have h: "FrequentPatterns (Some [[''a'', ''b''], [''a'']]) =
     Inr \<lparr>transaction_index = [(''a'', {2, 1}), (''b'', {1})], transaction_count = 2\<rparr>"
    by (simp add: FrequentPatterns_def index_transactions_def numeral_2_eq_2)
  show ?thesis
    by (rule support_monotone[OF h]) (simp_all add: get_all_items_def)
qed

section \<open>Loops that may raise\<close>

lemma fold_err_invariant:
  assumes "fold_err f xs s = Inr s'" and "I s"
    and "\<And>x t t'. x \<in> set xs \<Longrightarrow> I t \<Longrightarrow> f x t = Inr t' \<Longrightarrow> I t'"
  shows "I s'"
  using assms
proof (induction xs arbitrary: s)
  case Nil
  then show ?case by simp
next
  case (Cons x xs)
  from Cons.prems(1) obtain t where t: "f x s = Inr t" "fold_err f xs t = Inr s'"
    by (cases "f x s") auto
  have It: "I t" using Cons.prems(3)[of x s t] Cons.prems(2) t(1) by simp
  have step: "\<And>y u u'. y \<in> set xs \<Longrightarrow> I u \<Longrightarrow> f y u = Inr u' \<Longrightarrow> I u'"
    using Cons.prems(3) by (meson list.set_intros(2))
  show ?case by (rule Cons.IH[OF t(2) It step])
qed

lemma fold_err_total:
  assumes "\<And>x t. x \<in> set xs \<Longrightarrow> \<exists>t'. f x t = Inr t'"
  shows "\<exists>s'. fold_err f xs s = Inr s'"
  using assms
proof (induction xs arbitrary: s)
  case Nil
  then show ?case by simp
next
  case (Cons x xs)
  from Cons.prems[of x s] obtain t where t: "f x s = Inr t" by auto
  have "\<exists>s'. fold_err f xs t = Inr s'"
    by (rule Cons.IH) (meson Cons.prems list.set_intros(2))
  then show ?case using t by simp
qed

lemma fold_err_fails:
  assumes "x \<in> set xs" and "\<And>t. f x t = Inl e"
    and "\<And>y t. y \<in> set xs \<Longrightarrow> (\<exists>t'. f y t = Inr t') \<or> f y t = Inl e"
  shows "fold_err f xs s = Inl e"
  using assms
proof (induction xs arbitrary: s)
  case Nil
  then show ?case by simp
next
  case (Cons y ys)
  show ?case
  proof (cases "f y s")
    case (Inl e')
    then have "e' = e" using Cons.prems(3)[of y s] by auto
    with Inl show ?thesis by simp
  next
    case (Inr t)
    then have "x \<noteq> y" using Cons.prems(2)[of s] by auto
    then have "x \<in> set ys" using Cons.prems(1) by simp
    then have "fold_err f ys t = Inl e"
      by (rule Cons.IH) (use Cons.prems(2,3) in \<open>meson list.set_intros(2)\<close>)+
    with Inr show ?thesis by simp
  qed
qed

section \<open>The fragment pool of \<open>association_rules\<close>\<close>

lemma support_value_Inr:
  "support_value st C = Inr (s, r) \<Longrightarrow>
     transaction_count st \<noteq> 0 \<and> r = real s / real (transaction_count st)"
  by (auto simp: support_value_def Let_def split: list.splits if_splits)

lemma store_subset_Inr:
  assumes "store_subset st T pool = Inr pool'"
  shows "pool' = pool \<and> T \<in> set (map items pool) \<or>
         (\<exists>s r. T \<notin> set (map items pool) \<and> support_value st T = Inr (s, r) \<and>
            pool' = pool @ [\<lparr>items = T, support = s, relative_support = r\<rparr>])"
proof (cases "T \<in> set (map items pool)")
  case True
  then show ?thesis using assms by (simp add: store_subset_def)
next
  case False
  then show ?thesis using assms
    by (cases "support_value st T") (auto simp: store_subset_def)
qed

lemma pool_items:
  assumes "fold_err (store_subset st) as p0 = Inr p"
  shows "set (map items p) = set (map items p0) \<union> set as"
  using assms
proof (induction as arbitrary: p0)
  case Nil
  then show ?case by simp
next
  case (Cons a as)
  from Cons.prems obtain p1 where p1: "store_subset st a p0 = Inr p1"
    "fold_err (store_subset st) as p1 = Inr p"
    by (cases "store_subset st a p0") auto
  have "set (map items p1) = insert a (set (map items p0))"
    using store_subset_Inr[OF p1(1)] by auto
  then show ?case using Cons.IH[OF p1(2)] by simp
qed

lemma pool_distinct:
  assumes "fold_err (store_subset st) as p0 = Inr p" and "distinct (map items p0)"
  shows "distinct (map items p)"
proof (rule fold_err_invariant[OF assms(1), where I = "\<lambda>q. distinct (map items q)"])
  show "distinct (map items p0)" by (rule assms(2))
next
  fix x t t'
  assume "distinct (map items t)" "store_subset st x t = Inr t'"
  then show "distinct (map items t')" using store_subset_Inr[of st x t t'] by auto
qed

lemma pool_supports:
  assumes "fold_err (store_subset st) as p0 = Inr p"
    and "\<forall>f\<in>set p0. support_value st (items f) = Inr (support f, relative_support f)"
  shows "\<forall>f\<in>set p. support_value st (items f) = Inr (support f, relative_support f)"
proof (rule fold_err_invariant[OF assms(1),
      where I = "\<lambda>q. \<forall>f\<in>set q. support_value st (items f) = Inr (support f, relative_support f)"])
  show "\<forall>f\<in>set p0. support_value st (items f) = Inr (support f, relative_support f)"
    by (rule assms(2))
next
  fix x t t'
  assume "\<forall>f\<in>set t. support_value st (items f) = Inr (support f, relative_support f)"
    "store_subset st x t = Inr t'"
  then show "\<forall>f\<in>set t'. support_value st (items f) = Inr (support f, relative_support f)"
    using store_subset_Inr[of st x t t'] by auto
qed

lemma subset_attempts_mem:
  "T \<in> set (subset_attempts fsets) \<longleftrightarrow>
     (\<exists>fs\<in>set fsets. \<exists>k. 1 \<le> k \<and> k < maximum_cardinality fsets \<and>
        T \<in> set ` set (combinations (sorted_list_of_set (items fs)) k))"
proof -
  have "T \<in> set (subset_attempts fsets) \<longleftrightarrow>
      (\<exists>fs\<in>set fsets. \<exists>k\<in>{1..<maximum_cardinality fsets}.
         T \<in> set ` set (combinations (sorted_list_of_set (items fs)) k))"
    by (simp add: subset_attempts_def)
  also have "\<dots> \<longleftrightarrow> (\<exists>fs\<in>set fsets. \<exists>k. 1 \<le> k \<and> k < maximum_cardinality fsets \<and>
        T \<in> set ` set (combinations (sorted_list_of_set (items fs)) k))"
    by (simp add: Bex_def conj_ac)
  finally show ?thesis .
qed

lemma subset_attempts_finite_nonempty:
  assumes "T \<in> set (subset_attempts fsets)"
  shows "finite T \<and> T \<noteq> {}"
proof -
  from assms have "\<exists>fs\<in>set fsets. \<exists>k. 1 \<le> k \<and> k < maximum_cardinality fsets \<and>
        T \<in> set ` set (combinations (sorted_list_of_set (items fs)) k)"
    by (simp only: subset_attempts_mem)
  then obtain fs :: FrequentSet and k where k: "1 \<le> k"
    "T \<in> set ` set (combinations (sorted_list_of_set (items fs)) k)" by auto
  from k(2) obtain c where c: "c \<in> set (combinations (sorted_list_of_set (items fs)) k)"
    "T = set c" by auto
  note c = k(1) c
  from combinations_length[OF c(2)] c(1) have "c \<noteq> []" by auto
  with c(3) show ?thesis by simp
qed

lemma pool_facts:
  assumes "global_item_subsets_support st fsets = Inr pool"
  shows "distinct (map items pool)"
    and "\<forall>f\<in>set pool. support_value st (items f) = Inr (support f, relative_support f)"
    and "\<forall>f\<in>set pool. finite (items f) \<and> items f \<noteq> {}"
    and "set (map items pool) =
           (if 1 < maximum_cardinality fsets then set (subset_attempts fsets) else {})"
proof -
  show "distinct (map items pool)"
    using assms pool_distinct[of st "subset_attempts fsets" "[]" pool]
    by (auto simp: global_item_subsets_support_def split: if_splits)
  show "\<forall>f\<in>set pool. support_value st (items f) = Inr (support f, relative_support f)"
    using assms pool_supports[of st "subset_attempts fsets" "[]" pool]
    by (auto simp: global_item_subsets_support_def split: if_splits)
  show *: "set (map items pool) =
           (if 1 < maximum_cardinality fsets then set (subset_attempts fsets) else {})"
    using assms pool_items[of st "subset_attempts fsets" "[]" pool]
    by (auto simp: global_item_subsets_support_def split: if_splits)
  show "\<forall>f\<in>set pool. finite (items f) \<and> items f \<noteq> {}"
  proof
    fix f assume "f \<in> set pool"
    then have "items f \<in> set (map items pool)" by simp
    then have "items f \<in> set (subset_attempts fsets)" unfolding * by (auto split: if_splits)
    then show "finite (items f) \<and> items f \<noteq> {}" by (rule subset_attempts_finite_nonempty)
  qed
qed

section \<open>Sorting\<close>

lemma set_insort_lt: "set (insort_lt lt x ys) = insert x (set ys)"
  by (induction ys) auto

lemma set_py_sort: "set (py_sort lt xs) = set xs"
  by (induction xs) (simp_all add: py_sort_def set_insort_lt)

lemma set_py_sorted: "set (py_sorted lt reverse xs) = set xs"
  by (simp add: py_sorted_def set_py_sort)

lemma py_sort_Cons: "py_sort lt (x # xs) = insort_lt lt x (py_sort lt xs)"
  by (simp add: py_sort_def)

lemma py_sort_unchanged:
  "sorted_wrt (\<lambda>a b. \<not> lt b a) xs \<Longrightarrow> py_sort lt xs = xs"
proof (induction xs)
  case Nil
  then show ?case by (simp add: py_sort_def)
next
  case (Cons x xs)
  then have "py_sort lt xs = xs" by simp
  then have "py_sort lt (x # xs) = insort_lt lt x xs" by (simp add: py_sort_Cons)
  also have "\<dots> = x # xs" using Cons.prems by (cases xs) auto
  finally show ?case .
qed

lemma insort_lt_sorted:
  fixes key :: "'a \<Rightarrow> real"
  assumes "sorted_wrt (\<lambda>a b. key a \<le> key b) ys"
  shows "sorted_wrt (\<lambda>a b. key a \<le> key b) (insort_lt (\<lambda>a b. key a < key b) x ys)"
  using assms
proof (induction ys)
  case Nil
  then show ?case by simp
next
  case (Cons y ys)
  show ?case
  proof (cases "key y < key x")
    case True
    have "sorted_wrt (\<lambda>a b. key a \<le> key b) (insort_lt (\<lambda>a b. key a < key b) x ys)"
      using Cons by simp
    moreover have "\<forall>z\<in>set (insort_lt (\<lambda>a b. key a < key b) x ys). key y \<le> key z"
      using True Cons.prems by (auto simp: set_insort_lt)
    ultimately show ?thesis using True by simp
  next
    case False
    then have "\<forall>z\<in>set (y # ys). key x \<le> key z" using Cons.prems by fastforce
    then show ?thesis using False Cons.prems by simp
  qed
qed

lemma py_sort_sorted:
  fixes key :: "'a \<Rightarrow> real"
  shows "sorted_wrt (\<lambda>a b. key a \<le> key b) (py_sort (\<lambda>a b. key a < key b) xs)"
  by (induction xs) (simp_all add: py_sort_Cons insort_lt_sorted, simp add: py_sort_def)

lemma py_sorted_reverse_descending:
  fixes key :: "'a \<Rightarrow> real"
  shows "sorted_wrt (\<lambda>a b. key b \<le> key a) (py_sorted (\<lambda>a b. key a < key b) True xs)"
  using py_sort_sorted[of key "rev xs"] by (simp add: py_sorted_def sorted_wrt_rev)

lemma py_sorted_AssociationRule_unchanged:
  assumes "sorted_wrt (\<lambda>a b. confidence b \<le> confidence a) rs"
  shows "py_sorted AssociationRule_lt True rs = rs"
proof -
  have "sorted_wrt (\<lambda>a b. confidence a \<le> confidence b) (rev rs)"
    using assms by (simp add: sorted_wrt_rev)
  then have "sorted_wrt (\<lambda>a b. \<not> AssociationRule_lt b a) (rev rs)"
    by (rule sorted_wrt_mono_rel[rotated]) (auto simp: AssociationRule_lt_def)
  then have "py_sort AssociationRule_lt (rev rs) = rev rs" by (rule py_sort_unchanged)
  then show ?thesis by (simp add: py_sorted_def)
qed

lemma sort_rules_eq:
  "sort_rules rules =
     map (\<lambda>i. rules ! i)
       (py_sorted (\<lambda>i j. confidence (rules ! i) < confidence (rules ! j)) True [0..<length rules])"
proof -
  let ?L = "py_sorted (\<lambda>i j. confidence (rules ! i) < confidence (rules ! j)) True [0..<length rules]"
  have "sorted_wrt (\<lambda>i j. confidence (rules ! j) \<le> confidence (rules ! i)) ?L"
    by (rule py_sorted_reverse_descending)
  then have "sorted_wrt (\<lambda>a b. confidence b \<le> confidence a) (map (\<lambda>i. rules ! i) ?L)"
    by (simp add: sorted_wrt_map)
  then show ?thesis
    by (simp add: sort_rules_def Let_def py_sorted_AssociationRule_unchanged)
qed

lemma sort_rules_descending:
  "sorted_wrt (\<lambda>a b. confidence b \<le> confidence a) (sort_rules rules)"
proof -
  let ?L = "py_sorted (\<lambda>i j. confidence (rules ! i) < confidence (rules ! j)) True [0..<length rules]"
  have "sorted_wrt (\<lambda>i j. confidence (rules ! j) \<le> confidence (rules ! i)) ?L"
    by (rule py_sorted_reverse_descending)
  then show ?thesis by (simp add: sort_rules_eq sorted_wrt_map)
qed

lemma set_sort_rules: "set (sort_rules rules) = set rules"
proof -
  have "set (sort_rules rules) = (\<lambda>i. rules ! i) ` {0..<length rules}"
    by (simp add: sort_rules_eq set_py_sorted)
  also have "\<dots> = set rules" by (auto simp: set_conv_nth)
  finally show ?thesis .
qed

lemma association_rules_Inr:
  assumes "association_rules st fsets mc ml = Inr rs"
  obtains pool rules where "global_item_subsets_support st fsets = Inr pool"
    and "collect_rules st mc ml pool = Inr rules" and "rs = sort_rules rules"
  using assms by (auto simp: association_rules_def split: sum.splits)

text \<open>
  C9: the sequence returned by \<open>association_rules\<close> is in descending order of confidence: for
  positions \<open>i < j\<close> the rule at \<open>i\<close> has a confidence at least that of the rule at \<open>j\<close>.
  The second sort, with \<open>AssociationRule.__lt__\<close>, finds no pair to exchange in a list that
  is already in that order, so confidence alone decides.
\<close>

theorem rules_sorted_by_confidence:
  assumes "association_rules st frequent_item_sets minimum_confidence minimum_lift = Inr rules"
  shows "\<forall>i j. i < j \<and> j < length rules \<longrightarrow> confidence (rules ! j) \<le> confidence (rules ! i)"
proof -
  from assms obtain collected where "rules = sort_rules collected"
    by (rule association_rules_Inr)
  then have "sorted_wrt (\<lambda>a b. confidence b \<le> confidence a) rules"
    by (simp add: sort_rules_descending)
  then show ?thesis by (simp add: sorted_wrt_iff_nth_less)
qed

section \<open>The rule search\<close>

lemma rule_step_result:
  assumes i: "i < length pool" and j: "j < length pool"
    and fin: "\<forall>f\<in>set pool. finite (items f) \<and> items f \<noteq> {}"
    and sup: "\<forall>f\<in>set pool. support_value st (items f) = Inr (support f, relative_support f)"
  shows "rule_step st mc ml pool (i, j) rules =
    (if i \<noteq> j \<and> items (pool ! i) \<inter> items (pool ! j) = {}
     then (if support (pool ! i) = 0 \<or> support (pool ! j) = 0 then Inl ZeroDivisionError
           else Inr (if mc \<le> real (card (\<Inter>x\<in>items (pool ! i) \<union> items (pool ! j). item_transactions st x))
                             / real (support (pool ! i)) \<and>
                        ml \<le> real (card (\<Inter>x\<in>items (pool ! i) \<union> items (pool ! j). item_transactions st x))
                             / (real (support (pool ! i)) * relative_support (pool ! j))
                     then rules @ [\<lparr>condition = items (pool ! i), consequence = items (pool ! j),
                            confidence = real (card (\<Inter>x\<in>items (pool ! i) \<union> items (pool ! j). item_transactions st x))
                               / real (support (pool ! i)),
                            lift = real (card (\<Inter>x\<in>items (pool ! i) \<union> items (pool ! j). item_transactions st x))
                               / (real (support (pool ! i)) * relative_support (pool ! j))\<rparr>]
                     else rules))
     else Inr rules)"
proof -
  let ?a = "pool ! i" and ?b = "pool ! j"
  have a: "?a \<in> set pool" and b: "?b \<in> set pool" using i j by simp_all
  have "support_value st (items ?b) = Inr (support ?b, relative_support ?b)" using sup b by blast
  from support_value_Inr[OF this]
  have cnt: "transaction_count st \<noteq> 0"
    and rel: "relative_support ?b = real (support ?b) / real (transaction_count st)" by simp_all
  have finU: "finite (items ?a \<union> items ?b)" and neU: "items ?a \<union> items ?b \<noteq> {}"
    using fin a b by auto
  have zero: "real (support ?a) * relative_support ?b = 0 \<longleftrightarrow> support ?a = 0 \<or> support ?b = 0"
    using cnt by (simp add: rel)
  show ?thesis
    unfolding rule_step_def Let_def prod.case support_value_eq[OF finU neU cnt] sum.case zero
    by (simp only: if_not_P if_P split: if_splits) auto
qed

lemma rule_step_bad:
  assumes "i < length pool" and "j < length pool"
    and "\<forall>f\<in>set pool. finite (items f) \<and> items f \<noteq> {}"
    and "\<forall>f\<in>set pool. support_value st (items f) = Inr (support f, relative_support f)"
    and "i \<noteq> j" and "items (pool ! i) \<inter> items (pool ! j) = {}"
    and "support (pool ! i) = 0 \<or> support (pool ! j) = 0"
  shows "rule_step st mc ml pool (i, j) rules = Inl ZeroDivisionError"
  unfolding rule_step_result[OF assms(1-4)] using assms(5-7) by simp

lemma rule_step_good:
  assumes "i < length pool" and "j < length pool"
    and "\<forall>f\<in>set pool. finite (items f) \<and> items f \<noteq> {}"
    and "\<forall>f\<in>set pool. support_value st (items f) = Inr (support f, relative_support f)"
    and "\<not> (i \<noteq> j \<and> items (pool ! i) \<inter> items (pool ! j) = {} \<and>
            (support (pool ! i) = 0 \<or> support (pool ! j) = 0))"
  shows "\<exists>rules'. rule_step st mc ml pool (i, j) rules = Inr rules'"
  unfolding rule_step_result[OF assms(1-4)] using assms(5) by auto

lemma rule_step_either:
  assumes "i < length pool" and "j < length pool"
    and "\<forall>f\<in>set pool. finite (items f) \<and> items f \<noteq> {}"
    and "\<forall>f\<in>set pool. support_value st (items f) = Inr (support f, relative_support f)"
  shows "(\<exists>rules'. rule_step st mc ml pool (i, j) rules = Inr rules') \<or>
         rule_step st mc ml pool (i, j) rules = Inl ZeroDivisionError"
  unfolding rule_step_result[OF assms(1-4)] by simp

lemma collect_rules_outcome:
  assumes fin: "\<forall>f\<in>set pool. finite (items f) \<and> items f \<noteq> {}"
    and sup: "\<forall>f\<in>set pool. support_value st (items f) = Inr (support f, relative_support f)"
  shows "collect_rules st mc ml pool =  Inl ZeroDivisionError \<and>
           (\<exists>a\<in>set pool. \<exists>b\<in>set pool. a \<noteq> b \<and> items a \<inter> items b = {} \<and> support a = 0) \<or>
         (\<exists>rules. collect_rules st mc ml pool = Inr rules) \<and>
           \<not> (\<exists>a\<in>set pool. \<exists>b\<in>set pool. a \<noteq> b \<and> items a \<inter> items b = {} \<and> support a = 0)"
proof (cases "\<exists>a\<in>set pool. \<exists>b\<in>set pool. a \<noteq> b \<and> items a \<inter> items b = {} \<and> support a = 0")
  case True
  then obtain a b where ab: "a \<in> set pool" "b \<in> set pool" "a \<noteq> b"
    "items a \<inter> items b = {}" "support a = 0" by blast
  from ab(1,2) obtain i j where ij: "i < length pool" "pool ! i = a" "j < length pool" "pool ! j = b"
    by (auto simp: in_set_conv_nth)
  have ne: "i \<noteq> j" using ij ab(3) by auto
  let ?xs = "List.product [0..<length pool] [0..<length pool]"
  have mem: "(i, j) \<in> set ?xs" using ij by simp
  have "fold_err (rule_step st mc ml pool) ?xs [] = Inl ZeroDivisionError"
  proof (rule fold_err_fails[OF mem])
    fix t
    show "rule_step st mc ml pool (i, j) t = Inl ZeroDivisionError"
      by (rule rule_step_bad[OF ij(1) ij(3) fin sup ne]) (simp_all add: ij ab)
  next
    fix y t
    assume "y \<in> set ?xs"
    then obtain k l where kl: "y = (k, l)" "k < length pool" "l < length pool" by auto
    show "(\<exists>t'. rule_step st mc ml pool y t = Inr t') \<or>
          rule_step st mc ml pool y t = Inl ZeroDivisionError"
      unfolding kl(1) by (rule rule_step_either[OF kl(2,3) fin sup])
  qed
  moreover have "pool \<noteq> []" using ab(1) by auto
  ultimately have "collect_rules st mc ml pool = Inl ZeroDivisionError"
    by (simp add: collect_rules_def)
  with True show ?thesis by blast
next
  case False
  let ?xs = "List.product [0..<length pool] [0..<length pool]"
  have "\<exists>rules. fold_err (rule_step st mc ml pool) ?xs [] = Inr rules"
  proof (rule fold_err_total)
    fix y t
    assume "y \<in> set ?xs"
    then obtain k l where kl: "y = (k, l)" "k < length pool" "l < length pool" by auto
    have nb: "\<not> (k \<noteq> l \<and> items (pool ! k) \<inter> items (pool ! l) = {} \<and>
              (support (pool ! k) = 0 \<or> support (pool ! l) = 0))"
    proof
      assume bad: "k \<noteq> l \<and> items (pool ! k) \<inter> items (pool ! l) = {} \<and>
              (support (pool ! k) = 0 \<or> support (pool ! l) = 0)"
      have k: "pool ! k \<in> set pool" and l: "pool ! l \<in> set pool" using kl by simp_all
      have "items (pool ! k) \<noteq> {}" using fin k by blast
      with bad have neq: "pool ! k \<noteq> pool ! l" by auto
      from bad have sym: "items (pool ! l) \<inter> items (pool ! k) = {}" by auto
      from bad have "support (pool ! k) = 0 \<or> support (pool ! l) = 0" by simp
      then show False
      proof
        assume "support (pool ! k) = 0"
        with bad neq k l have "\<exists>a\<in>set pool. \<exists>b\<in>set pool.
            a \<noteq> b \<and> items a \<inter> items b = {} \<and> support a = 0" by blast
        with False show False by simp
      next
        assume "support (pool ! l) = 0"
        with sym neq k l have "\<exists>a\<in>set pool. \<exists>b\<in>set pool.
            a \<noteq> b \<and> items a \<inter> items b = {} \<and> support a = 0"
          by (intro bexI[of _ "pool ! l"] bexI[of _ "pool ! k"]) auto
        with False show False by simp
      qed
    qed
    show "\<exists>t'. rule_step st mc ml pool y t = Inr t'"
      unfolding kl(1) by (rule rule_step_good[OF kl(2,3) fin sup nb])
  qed
  then have "\<exists>rules. collect_rules st mc ml pool = Inr rules"
    by (auto simp: collect_rules_def)
  with False show ?thesis by blast
qed

text \<open>
  C1 as stated fails: nothing skips a pair whose antecedent has support zero. With the store
  of the single transaction \<open>[b]\<close> and the input item set \<open>{a, b}\<close>, the pool holds \<open>{a}\<close> with
  support 0 and \<open>{b}\<close>; the pair \<open>({a}, {b})\<close> divides by the support of \<open>{a}\<close> and the call
  raises \<open>ZeroDivisionError\<close>.
\<close>

theorem zero_support_counterexample:
  "FrequentPatterns (Some [[''b'']]) =
     Inr \<lparr>transaction_index = [(''b'', {1})], transaction_count = 1\<rparr> \<and>
   global_item_subsets_support \<lparr>transaction_index = [(''b'', {1})], transaction_count = 1\<rparr>
     [\<lparr>items = {''a'', ''b''}, support = 0, relative_support = 0\<rparr>] =
     Inr [\<lparr>items = {''a''}, support = 0, relative_support = 0\<rparr>,
          \<lparr>items = {''b''}, support = 1, relative_support = 1\<rparr>] \<and>
   association_rules \<lparr>transaction_index = [(''b'', {1})], transaction_count = 1\<rparr>
     [\<lparr>items = {''a'', ''b''}, support = 0, relative_support = 0\<rparr>] (1 / 2) (1 / 20) =
     Inl ZeroDivisionError"
proof (intro conjI)
  show "FrequentPatterns (Some [[''b'']]) =
     Inr \<lparr>transaction_index = [(''b'', {1})], transaction_count = 1\<rparr>"
    by (simp add: FrequentPatterns_def index_transactions_def)
  show "global_item_subsets_support \<lparr>transaction_index = [(''b'', {1})], transaction_count = 1\<rparr>
     [\<lparr>items = {''a'', ''b''}, support = 0, relative_support = 0\<rparr>] =
     Inr [\<lparr>items = {''a''}, support = 0, relative_support = 0\<rparr>,
          \<lparr>items = {''b''}, support = 1, relative_support = 1\<rparr>]"
    by code_simp
  show "association_rules \<lparr>transaction_index = [(''b'', {1})], transaction_count = 1\<rparr>
     [\<lparr>items = {''a'', ''b''}, support = 0, relative_support = 0\<rparr>] (1 / 2) (1 / 20) =
     Inl ZeroDivisionError"
    by code_simp
qed

text \<open>
  C1, amended: \<open>association_rules\<close> has no guard for a zero support. Once the fragment pool is
  built, the call raises \<open>ZeroDivisionError\<close> when the pool holds an ordered pair \<open>(A, B)\<close> of
  distinct, disjoint fragments in which the support of \<open>A\<close> is zero, and it returns a rule list
  (no division by zero occurs) when the pool holds no such pair.
\<close>

theorem zero_support_not_skipped:
  assumes "global_item_subsets_support st frequent_item_sets = Inr pool"
  shows "((\<exists>a\<in>set pool. \<exists>b\<in>set pool. a \<noteq> b \<and> items a \<inter> items b = {} \<and> support a = 0) \<longrightarrow>
            association_rules st frequent_item_sets minimum_confidence minimum_lift =
              Inl ZeroDivisionError) \<and>
         (\<not> (\<exists>a\<in>set pool. \<exists>b\<in>set pool. a \<noteq> b \<and> items a \<inter> items b = {} \<and> support a = 0) \<longrightarrow>
            (\<exists>rules. association_rules st frequent_item_sets minimum_confidence minimum_lift =
               Inr rules))"
  using collect_rules_outcome[OF pool_facts(3)[OF assms] pool_facts(2)[OF assms],
      of minimum_confidence minimum_lift]
  by (auto simp: association_rules_def assms)

theorem zero_support_not_skipped_witness:
  "(\<exists>rules. association_rules
       \<lparr>transaction_index = [(''a'', {2, 1}), (''b'', {1})], transaction_count = 2\<rparr>
       [\<lparr>items = {''a'', ''b''}, support = 1, relative_support = 1 / 2\<rparr>] (1 / 2) (1 / 20) =
       Inr rules) \<and>
   association_rules \<lparr>transaction_index = [(''b'', {1})], transaction_count = 1\<rparr>
     [\<lparr>items = {''a'', ''b''}, support = 0, relative_support = 0\<rparr>] 1 0 =
     Inl ZeroDivisionError"
proof -
  have good: "global_item_subsets_support
       \<lparr>transaction_index = [(''a'', {2, 1}), (''b'', {1})], transaction_count = 2\<rparr>
       [\<lparr>items = {''a'', ''b''}, support = 1, relative_support = 1 / 2\<rparr>] =
     Inr [\<lparr>items = {''a''}, support = 2, relative_support = 1\<rparr>,
          \<lparr>items = {''b''}, support = 1, relative_support = 1 / 2\<rparr>]"
    by code_simp
  have bad: "global_item_subsets_support
       \<lparr>transaction_index = [(''b'', {1})], transaction_count = 1\<rparr>
       [\<lparr>items = {''a'', ''b''}, support = 0, relative_support = 0\<rparr>] =
     Inr [\<lparr>items = {''a''}, support = 0, relative_support = 0\<rparr>,
          \<lparr>items = {''b''}, support = 1, relative_support = 1\<rparr>]"
    by code_simp
  show ?thesis
    using zero_support_not_skipped[OF good, of "1 / 2" "1 / 20"]
      zero_support_not_skipped[OF bad, of 1 0]
    by simp
qed

lemma pool_support_card:
  assumes "\<forall>f\<in>set pool. finite (items f) \<and> items f \<noteq> {}"
    and "\<forall>f\<in>set pool. support_value st (items f) = Inr (support f, relative_support f)"
    and "f \<in> set pool"
  shows "transaction_count st \<noteq> 0"
    and "support f = card (\<Inter>x\<in>items f. item_transactions st x)"
    and "relative_support f = real (support f) / real (transaction_count st)"
proof -
  have sv: "support_value st (items f) = Inr (support f, relative_support f)"
    using assms(2,3) by blast
  from support_value_Inr[OF sv] show cnt: "transaction_count st \<noteq> 0"
    and "relative_support f = real (support f) / real (transaction_count st)" by simp_all
  have "finite (items f)" "items f \<noteq> {}" using assms(1,3) by auto
  from support_value_eq[OF this cnt] sv
  show "support f = card (\<Inter>x\<in>items f. item_transactions st x)" by simp
qed

lemma rule_step_valid:
  assumes i: "i < length pool" and j: "j < length pool"
    and fin: "\<forall>f\<in>set pool. finite (items f) \<and> items f \<noteq> {}"
    and sup: "\<forall>f\<in>set pool. support_value st (items f) = Inr (support f, relative_support f)"
    and step: "rule_step st mc ml pool (i, j) rules = Inr rules'"
    and inv: "\<forall>r\<in>set rules. condition r \<inter> consequence r = {} \<and> 0 \<le> confidence r \<and>
                confidence r \<le> 1 \<and> 0 \<le> lift r"
  shows "\<forall>r\<in>set rules'. condition r \<inter> consequence r = {} \<and> 0 \<le> confidence r \<and>
                confidence r \<le> 1 \<and> 0 \<le> lift r"
proof (cases "i \<noteq> j \<and> items (pool ! i) \<inter> items (pool ! j) = {}")
  case False
  with step[unfolded rule_step_result[OF i j fin sup]] have "rules' = rules" by simp
  with inv show ?thesis by simp
next
  case True
  let ?a = "pool ! i" and ?b = "pool ! j"
  let ?TA = "\<Inter>x\<in>items ?a. item_transactions st x"
  let ?TU = "\<Inter>x\<in>items ?a \<union> items ?b. item_transactions st x"
  have a: "?a \<in> set pool" and b: "?b \<in> set pool" using i j by simp_all
  have nz: "support ?a \<noteq> 0" "support ?b \<noteq> 0"
    using step[unfolded rule_step_result[OF i j fin sup]] True by (auto split: if_splits)
  have sa: "support ?a = card ?TA" by (rule pool_support_card(2)[OF fin sup a])
  have "finite ?TA"
  proof (rule ccontr)
    assume "infinite ?TA"
    then have "card ?TA = 0" by (rule card.infinite)
    with sa nz(1) show False by simp
  qed
  moreover have "?TU \<subseteq> ?TA" by (rule INF_superset_mono) simp_all
  ultimately have le: "card ?TU \<le> support ?a" unfolding sa by (rule card_mono)
  have conf: "0 \<le> real (card ?TU) / real (support ?a)" "real (card ?TU) / real (support ?a) \<le> 1"
    using le nz(1) by simp_all
  have "0 \<le> relative_support ?b"
    unfolding pool_support_card(3)[OF fin sup b] by simp
  then have lft: "0 \<le> real (card ?TU) / (real (support ?a) * relative_support ?b)" by simp
  have "rules' = rules \<or>
        rules' = rules @ [\<lparr>condition = items ?a, consequence = items ?b,
           confidence = real (card ?TU) / real (support ?a),
           lift = real (card ?TU) / (real (support ?a) * relative_support ?b)\<rparr>]"
    using step[unfolded rule_step_result[OF i j fin sup]] True nz by (auto split: if_splits)
  then show ?thesis
  proof
    assume "rules' = rules"
    with inv show ?thesis by simp
  next
    assume "rules' = rules @ [\<lparr>condition = items ?a, consequence = items ?b,
           confidence = real (card ?TU) / real (support ?a),
           lift = real (card ?TU) / (real (support ?a) * relative_support ?b)\<rparr>]"
    then show ?thesis using inv conf lft True by simp
  qed
qed

lemma collect_rules_valid:
  assumes fin: "\<forall>f\<in>set pool. finite (items f) \<and> items f \<noteq> {}"
    and sup: "\<forall>f\<in>set pool. support_value st (items f) = Inr (support f, relative_support f)"
    and res: "collect_rules st mc ml pool = Inr rules"
  shows "\<forall>r\<in>set rules. condition r \<inter> consequence r = {} \<and> 0 \<le> confidence r \<and>
                confidence r \<le> 1 \<and> 0 \<le> lift r"
proof (cases "pool = []")
  case True
  then show ?thesis using res by (simp add: collect_rules_def)
next
  case False
  let ?xs = "List.product [0..<length pool] [0..<length pool]"
  from False res have f: "fold_err (rule_step st mc ml pool) ?xs [] = Inr rules"
    by (simp add: collect_rules_def)
  show ?thesis
  proof (rule fold_err_invariant[OF f])
    show "\<forall>r\<in>set []. condition r \<inter> consequence r = {} \<and> 0 \<le> confidence r \<and>
                confidence r \<le> 1 \<and> 0 \<le> lift r" by simp
  next
    fix x t t'
    assume x: "x \<in> set ?xs"
      and t: "\<forall>r\<in>set t. condition r \<inter> consequence r = {} \<and> 0 \<le> confidence r \<and>
                confidence r \<le> 1 \<and> 0 \<le> lift r"
      and s: "rule_step st mc ml pool x t = Inr t'"
    from x obtain k l where kl: "x = (k, l)" "k < length pool" "l < length pool" by auto
    show "\<forall>r\<in>set t'. condition r \<inter> consequence r = {} \<and> 0 \<le> confidence r \<and>
                confidence r \<le> 1 \<and> 0 \<le> lift r"
      by (rule rule_step_valid[OF kl(2,3) fin sup s[unfolded kl(1)] t])
  qed
qed

text \<open>
  C7: every rule in the sequence returned by \<open>association_rules\<close> has a condition and a
  consequence with empty intersection, a confidence in \<open>[0, 1]\<close> and a lift of at least 0,
  for every store, input list and pair of thresholds.
\<close>

theorem rules_valid:
  assumes "association_rules st frequent_item_sets minimum_confidence minimum_lift = Inr rules"
  shows "\<forall>r\<in>set rules. condition r \<inter> consequence r = {} \<and> 0 \<le> confidence r \<and>
           confidence r \<le> 1 \<and> 0 \<le> lift r"
proof -
  from assms obtain pool collected where
    p: "global_item_subsets_support st frequent_item_sets = Inr pool"
    and c: "collect_rules st minimum_confidence minimum_lift pool = Inr collected"
    and r: "rules = sort_rules collected"
    by (rule association_rules_Inr)
  show ?thesis unfolding r set_sort_rules
    by (rule collect_rules_valid[OF pool_facts(3)[OF p] pool_facts(2)[OF p] c])
qed

lemma assoc_example:
  "association_rules
       \<lparr>transaction_index = [(''a'', {2, 1}), (''b'', {1})], transaction_count = 2\<rparr>
       [\<lparr>items = {''a'', ''b''}, support = 1, relative_support = 1 / 2\<rparr>] (1 / 2) (1 / 20) =
   Inr [\<lparr>condition = {''b''}, consequence = {''a''}, confidence = 1, lift = 1\<rparr>,
        \<lparr>condition = {''a''}, consequence = {''b''}, confidence = 1 / 2, lift = 1\<rparr>]"
  by code_simp

theorem rules_valid_witness:
  "condition \<lparr>condition = {''a''}, consequence = {''b''}, confidence = 1 / 2, lift = 1\<rparr> \<inter>
     consequence \<lparr>condition = {''a''}, consequence = {''b''}, confidence = 1 / 2, lift = 1\<rparr> = {} \<and>
   0 \<le> confidence \<lparr>condition = {''a''}, consequence = {''b''}, confidence = 1 / 2, lift = 1\<rparr> \<and>
   confidence \<lparr>condition = {''a''}, consequence = {''b''}, confidence = 1 / 2, lift = 1\<rparr> \<le> 1 \<and>
   0 \<le> lift \<lparr>condition = {''a''}, consequence = {''b''}, confidence = 1 / 2, lift = 1\<rparr>"
  using rules_valid[OF assoc_example] by simp

theorem rules_sorted_by_confidence_witness:
  "confidence ([\<lparr>condition = {''b''}, consequence = {''a''}, confidence = 1, lift = 1\<rparr>,
        \<lparr>condition = {''a''}, consequence = {''b''}, confidence = 1 / 2, lift = 1\<rparr>] ! 1)
   \<le> confidence ([\<lparr>condition = {''b''}, consequence = {''a''}, confidence = 1, lift = 1\<rparr>,
        \<lparr>condition = {''a''}, consequence = {''b''}, confidence = 1 / 2, lift = 1\<rparr>] ! 0)"
  using rules_sorted_by_confidence[OF assoc_example] by simp

section \<open>What the fragment pool holds\<close>

text \<open>
  C4 as stated fails: the pool is not made of proper subsets only. An input item set smaller
  than the largest one enters the pool whole: with the inputs \<open>{c}\<close> and \<open>{a, b}\<close> the pool holds
  \<open>{c}\<close>, which is a proper subset of neither.
\<close>

theorem pool_counterexample:
  "FrequentPatterns (Some [[''a'', ''b''], [''c'']]) =
     Inr \<lparr>transaction_index = [(''a'', {1}), (''b'', {1}), (''c'', {2})], transaction_count = 2\<rparr> \<and>
   global_item_subsets_support
     \<lparr>transaction_index = [(''a'', {1}), (''b'', {1}), (''c'', {2})], transaction_count = 2\<rparr>
     [\<lparr>items = {''c''}, support = 1, relative_support = 1 / 2\<rparr>,
      \<lparr>items = {''a'', ''b''}, support = 1, relative_support = 1 / 2\<rparr>] =
     Inr [\<lparr>items = {''c''}, support = 1, relative_support = 1 / 2\<rparr>,
          \<lparr>items = {''a''}, support = 1, relative_support = 1 / 2\<rparr>,
          \<lparr>items = {''b''}, support = 1, relative_support = 1 / 2\<rparr>] \<and>
   \<not> {''c''} \<subset> items \<lparr>items = {''c''}, support = 1, relative_support = 1 / 2\<rparr> \<and>
   \<not> {''c''} \<subset> items \<lparr>items = {''a'', ''b''}, support = 1, relative_support = 1 / 2\<rparr>"
proof (intro conjI)
  show "FrequentPatterns (Some [[''a'', ''b''], [''c'']]) =
     Inr \<lparr>transaction_index = [(''a'', {1}), (''b'', {1}), (''c'', {2})], transaction_count = 2\<rparr>"
    by (simp add: FrequentPatterns_def index_transactions_def numeral_2_eq_2)
  show "global_item_subsets_support
     \<lparr>transaction_index = [(''a'', {1}), (''b'', {1}), (''c'', {2})], transaction_count = 2\<rparr>
     [\<lparr>items = {''c''}, support = 1, relative_support = 1 / 2\<rparr>,
      \<lparr>items = {''a'', ''b''}, support = 1, relative_support = 1 / 2\<rparr>] =
     Inr [\<lparr>items = {''c''}, support = 1, relative_support = 1 / 2\<rparr>,
          \<lparr>items = {''a''}, support = 1, relative_support = 1 / 2\<rparr>,
          \<lparr>items = {''b''}, support = 1, relative_support = 1 / 2\<rparr>]"
    by code_simp
qed auto

lemma subset_attempts_sets:
  assumes "\<forall>fs\<in>set fsets. finite (items fs)"
  shows "set (subset_attempts fsets) =
     {T. \<exists>fs\<in>set fsets. T \<subseteq> items fs \<and> 1 \<le> card T \<and> card T < maximum_cardinality fsets}"
proof (rule set_eqI)
  fix T
  have "T \<in> set (subset_attempts fsets) \<longleftrightarrow>
     (\<exists>fs\<in>set fsets. \<exists>k. 1 \<le> k \<and> k < maximum_cardinality fsets \<and>
        T \<in> set ` set (combinations (sorted_list_of_set (items fs)) k))"
    by (rule subset_attempts_mem)
  also have "\<dots> \<longleftrightarrow> (\<exists>fs\<in>set fsets. \<exists>k. 1 \<le> k \<and> k < maximum_cardinality fsets \<and>
        T \<in> {T. T \<subseteq> items fs \<and> card T = k})"
    using assms by (simp add: combinations_of_set)
  also have "\<dots> \<longleftrightarrow> (\<exists>fs\<in>set fsets. T \<subseteq> items fs \<and> 1 \<le> card T \<and>
        card T < maximum_cardinality fsets)"
    by auto
  finally show "T \<in> set (subset_attempts fsets) \<longleftrightarrow>
     T \<in> {T. \<exists>fs\<in>set fsets. T \<subseteq> items fs \<and> 1 \<le> card T \<and> card T < maximum_cardinality fsets}"
    by simp
qed

text \<open>
  C4, amended: when the pool is built (the input item sets being finite), it consists exactly
  of the distinct non-empty subsets, proper or not, of the input item sets whose size is between
  1 and \<open>max_size - 1\<close>, where \<open>max_size\<close> is the largest size in the input; each such subset
  appears once, with the support and relative support that the support query returns for it.
\<close>

theorem pool_exact:
  assumes "global_item_subsets_support st frequent_item_sets = Inr pool"
    and "\<forall>fs\<in>set frequent_item_sets. finite (items fs)"
  shows "distinct (map items pool) \<and>
     set (map items pool) =
       {T. \<exists>fs\<in>set frequent_item_sets. T \<subseteq> items fs \<and> 1 \<le> card T \<and>
              card T < maximum_cardinality frequent_item_sets} \<and>
     (\<forall>f\<in>set pool. support_value st (items f) = Inr (support f, relative_support f))"
proof (intro conjI)
  show "distinct (map items pool)" by (rule pool_facts(1)[OF assms(1)])
  show "\<forall>f\<in>set pool. support_value st (items f) = Inr (support f, relative_support f)"
    by (rule pool_facts(2)[OF assms(1)])
  show "set (map items pool) =
       {T. \<exists>fs\<in>set frequent_item_sets. T \<subseteq> items fs \<and> 1 \<le> card T \<and>
              card T < maximum_cardinality frequent_item_sets}"
  proof (cases "1 < maximum_cardinality frequent_item_sets")
    case True
    then show ?thesis
      unfolding pool_facts(4)[OF assms(1)] using subset_attempts_sets[OF assms(2)] by simp
  next
    case False
    then have "{T. \<exists>fs\<in>set frequent_item_sets. T \<subseteq> items fs \<and> 1 \<le> card T \<and>
              card T < maximum_cardinality frequent_item_sets} = {}" by auto
    with False show ?thesis unfolding pool_facts(4)[OF assms(1)] by simp
  qed
qed

theorem pool_exact_witness:
  "distinct (map items [\<lparr>items = {''c''}, support = 1, relative_support = 1 / 2\<rparr>,
          \<lparr>items = {''a''}, support = 1, relative_support = 1 / 2\<rparr>,
          \<lparr>items = {''b''}, support = 1, relative_support = 1 / 2\<rparr>]) \<and>
   {''c''} \<in> {T. \<exists>fs\<in>set [\<lparr>items = {''c''}, support = 1, relative_support = 1 / 2\<rparr>,
      \<lparr>items = {''a'', ''b''}, support = 1, relative_support = 1 / 2\<rparr>]. T \<subseteq> items fs \<and> 1 \<le> card T \<and>
        card T < maximum_cardinality [\<lparr>items = {''c''}, support = 1, relative_support = 1 / 2\<rparr>,
      \<lparr>items = {''a'', ''b''}, support = 1, relative_support = 1 / 2\<rparr>]} \<and>
   support_value
     \<lparr>transaction_index = [(''a'', {1}), (''b'', {1}), (''c'', {2})], transaction_count = 2\<rparr>
     {''c''} = Inr (1, 1 / 2)"
proof -
  have pool: "global_item_subsets_support
     \<lparr>transaction_index = [(''a'', {1}), (''b'', {1}), (''c'', {2})], transaction_count = 2\<rparr>
     [\<lparr>items = {''c''}, support = 1, relative_support = 1 / 2\<rparr>,
      \<lparr>items = {''a'', ''b''}, support = 1, relative_support = 1 / 2\<rparr>] =
     Inr [\<lparr>items = {''c''}, support = 1, relative_support = 1 / 2\<rparr>,
          \<lparr>items = {''a''}, support = 1, relative_support = 1 / 2\<rparr>,
          \<lparr>items = {''b''}, support = 1, relative_support = 1 / 2\<rparr>]"
    by code_simp
  have fin: "\<forall>fs\<in>set [\<lparr>items = {''c''}, support = 1, relative_support = 1 / 2\<rparr>,
      \<lparr>items = {''a'', ''b''}, support = 1, relative_support = 1 / 2\<rparr>]. finite (items fs)"
    by simp
  note pe = pool_exact[OF pool fin]
  from pe have d: "distinct (map items [\<lparr>items = {''c''}, support = 1, relative_support = 1 / 2\<rparr>,
          \<lparr>items = {''a''}, support = 1, relative_support = 1 / 2\<rparr>,
          \<lparr>items = {''b''}, support = 1, relative_support = 1 / 2\<rparr>])"
    by (rule conjunct1)
  from pe have s: "set (map items [\<lparr>items = {''c''}, support = 1, relative_support = 1 / 2\<rparr>,
          \<lparr>items = {''a''}, support = 1, relative_support = 1 / 2\<rparr>,
          \<lparr>items = {''b''}, support = 1, relative_support = 1 / 2\<rparr>]) =
     {T. \<exists>fs\<in>set [\<lparr>items = {''c''}, support = 1, relative_support = 1 / 2\<rparr>,
      \<lparr>items = {''a'', ''b''}, support = 1, relative_support = 1 / 2\<rparr>]. T \<subseteq> items fs \<and> 1 \<le> card T \<and>
        card T < maximum_cardinality [\<lparr>items = {''c''}, support = 1, relative_support = 1 / 2\<rparr>,
      \<lparr>items = {''a'', ''b''}, support = 1, relative_support = 1 / 2\<rparr>]}"
    by (rule conjunct1[OF conjunct2])
  from pe have v: "\<forall>f\<in>set [\<lparr>items = {''c''}, support = 1, relative_support = 1 / 2\<rparr>,
          \<lparr>items = {''a''}, support = 1, relative_support = 1 / 2\<rparr>,
          \<lparr>items = {''b''}, support = 1, relative_support = 1 / 2\<rparr>].
      support_value
        \<lparr>transaction_index = [(''a'', {1}), (''b'', {1}), (''c'', {2})], transaction_count = 2\<rparr>
        (items f) = Inr (support f, relative_support f)"
    by (rule conjunct2[OF conjunct2])
  have "{''c''} \<in> set (map items [\<lparr>items = {''c''}, support = 1, relative_support = 1 / 2\<rparr>,
          \<lparr>items = {''a''}, support = 1, relative_support = 1 / 2\<rparr>,
          \<lparr>items = {''b''}, support = 1, relative_support = 1 / 2\<rparr>])"
    by simp
  then have m: "{''c''} \<in> {T. \<exists>fs\<in>set [\<lparr>items = {''c''}, support = 1, relative_support = 1 / 2\<rparr>,
      \<lparr>items = {''a'', ''b''}, support = 1, relative_support = 1 / 2\<rparr>]. T \<subseteq> items fs \<and> 1 \<le> card T \<and>
        card T < maximum_cardinality [\<lparr>items = {''c''}, support = 1, relative_support = 1 / 2\<rparr>,
      \<lparr>items = {''a'', ''b''}, support = 1, relative_support = 1 / 2\<rparr>]}"
    by (simp only: s)
  have "support_value
        \<lparr>transaction_index = [(''a'', {1}), (''b'', {1}), (''c'', {2})], transaction_count = 2\<rparr>
        (items \<lparr>items = {''c''}, support = 1, relative_support = 1 / 2\<rparr>) =
      Inr (support \<lparr>items = {''c''}, support = 1, relative_support = 1 / 2\<rparr>,
           relative_support \<lparr>items = {''c''}, support = 1, relative_support = 1 / 2\<rparr>)"
    by (rule bspec[OF v]) simp
  then have "support_value
        \<lparr>transaction_index = [(''a'', {1}), (''b'', {1}), (''c'', {2})], transaction_count = 2\<rparr>
        {''c''} = Inr (1, 1 / 2)" by simp
  with d m show ?thesis by (intro conjI)
qed

section \<open>The level-wise search\<close>

lemma cifs_sound:
  assumes "current_iteration_frequent_sets st r m cs = Inr fr" and "f \<in> set fr"
  shows "items f \<in> set cs \<and> support_value st (items f) = Inr (support f, relative_support f) \<and>
         \<not> (if r then relative_support f < m else real (support f) < m)"
  using assms
proof (induction cs arbitrary: fr)
  case Nil
  then show ?case by simp
next
  case (Cons c cs)
  from Cons.prems(1) obtain s rv where sv: "support_value st c = Inr (s, rv)"
    by (cases "support_value st c") auto
  with Cons.prems(1) obtain rest where rest: "current_iteration_frequent_sets st r m cs = Inr rest"
    by (cases "current_iteration_frequent_sets st r m cs") auto
  show ?case
  proof (cases "if r then rv < m else real s < m")
    case True
    then have "fr = rest" using Cons.prems(1) sv rest by (auto split: if_splits)
    then show ?thesis using Cons.IH[OF rest] Cons.prems(2) by simp
  next
    case False
    then have fr: "fr = \<lparr>items = c, support = s, relative_support = rv\<rparr> # rest"
      using Cons.prems(1) sv rest by (auto split: if_splits)
    show ?thesis
    proof (cases "f = \<lparr>items = c, support = s, relative_support = rv\<rparr>")
      case True
      then show ?thesis using sv False by (auto split: if_splits)
    next
      case neq: False
      then have "f \<in> set rest" using Cons.prems(2) fr by simp
      then show ?thesis using Cons.IH[OF rest] by simp
    qed
  qed
qed

lemma cifs_distinct:
  assumes "current_iteration_frequent_sets st r m cs = Inr fr" and "distinct cs"
  shows "distinct (map items fr)"
  using assms
proof (induction cs arbitrary: fr)
  case Nil
  then show ?case by simp
next
  case (Cons c cs)
  from Cons.prems(1) obtain s rv where sv: "support_value st c = Inr (s, rv)"
    by (cases "support_value st c") auto
  with Cons.prems(1) obtain rest where rest: "current_iteration_frequent_sets st r m cs = Inr rest"
    by (cases "current_iteration_frequent_sets st r m cs") auto
  have d: "distinct (map items rest)" using Cons.IH[OF rest] Cons.prems(2) by simp
  have "c \<notin> set (map items rest)"
  proof
    assume "c \<in> set (map items rest)"
    then obtain g where "g \<in> set rest" "items g = c" by auto
    then have "c \<in> set cs" using cifs_sound[OF rest] by blast
    with Cons.prems(2) show False by simp
  qed
  with d have "distinct (map items (\<lparr>items = c, support = s, relative_support = rv\<rparr> # rest))"
    by simp
  moreover have "fr = rest \<or> fr = \<lparr>items = c, support = s, relative_support = rv\<rparr> # rest"
    using Cons.prems(1) sv rest by (simp split: if_splits)
  ultimately show ?case using d by auto
qed

lemma possible_candidate_card:
  assumes "c \<in> set (possible_candidate_sets sets k)"
  shows "finite c \<and> card c = k + 1"
proof -
  from assms obtain l where l: "l \<in> set (combinations (sorted_list_of_set (unique_items sets)) (k + 1))"
    "c = set l" by (auto simp: possible_candidate_sets_def)
  have "card (set l) = k + 1" by (rule combinations_card[OF _ l(1)]) simp
  with l(2) show ?thesis by simp
qed

lemma candidate_sets_subset: "set (candidate_sets sets k) \<subseteq> set (possible_candidate_sets sets k)"
  by (simp add: candidate_sets_def)

lemma candidate_sets_pruned:
  assumes "0 < iteration" and "c \<in> set (candidate_sets sets iteration)"
    and "T \<subseteq> c" and "card T = iteration"
  shows "T \<in> set (map items sets)"
proof -
  have "c \<in> set (possible_candidate_sets sets iteration)"
    using assms(2) candidate_sets_subset by blast
  then have fin: "finite c" using possible_candidate_card by blast
  have "\<not> discard_candidate (previous_frequent_sets sets) c iteration"
    using assms(1,2) by (simp add: candidate_sets_def)
  then have all: "\<forall>l\<in>set (combinations (sorted_list_of_set c) iteration).
      set l \<in> previous_frequent_sets sets"
    by (simp add: discard_candidate_def list_ex_iff)
  have "T \<in> set ` set (combinations (sorted_list_of_set c) iteration)"
    unfolding combinations_of_set[OF fin] using assms(3,4) by simp
  then obtain l where "l \<in> set (combinations (sorted_list_of_set c) iteration)" "T = set l"
    by auto
  with all show ?thesis by (simp add: previous_frequent_sets_def)
qed

lemma mine_loop_levels:
  assumes "mine_loop st r m k sets = Inr levels" and "n < length levels"
  shows "current_iteration_frequent_sets st r m
           (candidate_sets (if n = 0 then sets else levels ! (n - 1)) (k + n)) = Inr (levels ! n)"
  using assms
proof (induction st r m k sets arbitrary: levels n rule: mine_loop.induct)
  case (1 st r m k sets)
  from "1.prems"(1) obtain cur where cur:
    "current_iteration_frequent_sets st r m (candidate_sets sets k) = Inr cur"
    by (subst (asm) mine_loop.simps) (auto split: sum.splits)
  have ne: "0 < length cur"
  proof (rule ccontr)
    assume "\<not> 0 < length cur"
    then have "levels = []" using "1.prems"(1) cur by (subst (asm) mine_loop.simps) simp
    with "1.prems"(2) show False by simp
  qed
  from "1.prems"(1) cur ne obtain later where later:
    "mine_loop st r m (k + 1) cur = Inr later" "levels = cur # later"
    by (subst (asm) mine_loop.simps) (auto split: sum.splits)
  show ?case
  proof (cases n)
    case 0
    then show ?thesis using cur later(2) by simp
  next
    case (Suc n')
    then have n': "n' < length later" using "1.prems"(2) later(2) by simp
    have "current_iteration_frequent_sets st r m
           (candidate_sets (if n' = 0 then cur else later ! (n' - 1)) (k + 1 + n')) = Inr (later ! n')"
      by (rule "1.IH"[OF cur ne later(1) n'])
    moreover have "(if n' = 0 then cur else later ! (n' - 1)) = levels ! (n - 1)"
      using Suc later(2) by (cases n') simp_all
    ultimately show ?thesis using Suc later(2) by simp
  qed
qed

lemma level_sound:
  assumes "mine_loop st r m k sets = Inr levels" and "n < length levels"
    and "f \<in> set (levels ! n)"
  shows "finite (items f)" and "card (items f) = k + n + 1"
    and "support_value st (items f) = Inr (support f, relative_support f)"
    and "\<not> (if r then relative_support f < m else real (support f) < m)"
    and "items f \<in> set (candidate_sets (if n = 0 then sets else levels ! (n - 1)) (k + n))"
proof -
  note lv = mine_loop_levels[OF assms(1,2)]
  from cifs_sound[OF lv assms(3)]
  show c: "items f \<in> set (candidate_sets (if n = 0 then sets else levels ! (n - 1)) (k + n))"
    and "support_value st (items f) = Inr (support f, relative_support f)"
    and "\<not> (if r then relative_support f < m else real (support f) < m)"
    by simp_all
  from c candidate_sets_subset
  have "items f \<in> set (possible_candidate_sets (if n = 0 then sets else levels ! (n - 1)) (k + n))"
    by blast
  from possible_candidate_card[OF this]
  show "finite (items f)" and "card (items f) = k + n + 1" by simp_all
qed

lemma level_subsets:
  assumes "mine_loop st r m 0 sets = Inr levels" and "n < length levels"
    and "f \<in> set (levels ! n)" and "T \<subseteq> items f" and "T \<noteq> {}"
  shows "\<exists>g\<in>set (levels ! (card T - 1)). items g = T"
  using assms(2-5)
proof (induction n arbitrary: f)
  case 0
  have fin: "finite (items f)" and c: "card (items f) = 1"
    using level_sound(1,2)[OF assms(1) "0.prems"(1,2)] by simp_all
  then obtain x where "items f = {x}" by (auto simp: card_1_singleton_iff)
  with "0.prems"(3,4) have "T = items f" by auto
  with c "0.prems"(2) show ?case by auto
next
  case (Suc n)
  have fin: "finite (items f)" and c: "card (items f) = Suc n + 1"
    using level_sound(1,2)[OF assms(1) Suc.prems(1,2)] by simp_all
  show ?case
  proof (cases "T = items f")
    case True
    with c Suc.prems(2) show ?thesis by auto
  next
    case False
    with Suc.prems(3) obtain x where x: "x \<in> items f" "x \<notin> T" by auto
    let ?U = "items f - {x}"
    have U: "?U \<subseteq> items f" "card ?U = Suc n" "T \<subseteq> ?U"
      using x c fin Suc.prems(3) by auto
    have cand: "items f \<in> set (candidate_sets (levels ! n) (Suc n))"
      using level_sound(5)[OF assms(1) Suc.prems(1,2)] by simp
    have "?U \<in> set (map items (levels ! n))"
      by (rule candidate_sets_pruned[OF _ cand U(1,2)]) simp
    then obtain g where g: "g \<in> set (levels ! n)" "items g = ?U" by auto
    have n: "n < length levels" using Suc.prems(1) by simp
    show ?thesis by (rule Suc.IH[OF n g(1) _ Suc.prems(4)]) (simp add: g(2) U(3))
  qed
qed

lemma iterations_frequent_sets_Inr:
  assumes "iterations_frequent_sets st minimum_support is_relative_support = Inr levels"
  obtains threshold where
    "effective_minimum_support st minimum_support is_relative_support = Inr threshold"
    and "mine_loop st is_relative_support threshold 0 (initial_set st is_relative_support) =
           Inr levels"
  using assms by (auto simp: iterations_frequent_sets_def split: sum.splits)

text \<open>
  C3: at an iteration \<open>k \<ge> 1\<close> a candidate (of size \<open>k + 1\<close>) is among those whose support is
  computed only if every one of its subsets of size \<open>k\<close> is an item set of the level it was
  built from. Consequently every non-empty subset \<open>U\<close> of an item set retained at any level is
  itself retained, at the level of its size, with the support the query returns for it, and it
  meets the threshold.
\<close>

theorem downward_closure:
  "(0 < iteration \<and> c \<in> set (candidate_sets sets iteration) \<and> T \<subseteq> c \<and> card T = iteration \<longrightarrow>
      T \<in> set (map items sets)) \<and>
   (iterations_frequent_sets st minimum_support is_relative_support = Inr levels \<and>
    n < length levels \<and> S \<in> set (levels ! n) \<and> U \<subseteq> items S \<and> U \<noteq> {} \<longrightarrow>
      (\<exists>g\<in>set (levels ! (card U - 1)).
         items g = U \<and> support_value st U = Inr (support g, relative_support g) \<and>
         (\<exists>threshold.
            effective_minimum_support st minimum_support is_relative_support = Inr threshold \<and>
            \<not> (if is_relative_support then relative_support g < threshold
                else real (support g) < threshold))))"
proof (intro conjI impI)
  assume "0 < iteration \<and> c \<in> set (candidate_sets sets iteration) \<and> T \<subseteq> c \<and> card T = iteration"
  then show "T \<in> set (map items sets)" using candidate_sets_pruned by blast
next
  assume a: "iterations_frequent_sets st minimum_support is_relative_support = Inr levels \<and>
    n < length levels \<and> S \<in> set (levels ! n) \<and> U \<subseteq> items S \<and> U \<noteq> {}"
  from a obtain m where
    m: "effective_minimum_support st minimum_support is_relative_support = Inr m"
    and ml: "mine_loop st is_relative_support m 0 (initial_set st is_relative_support) = Inr levels"
    by (rule iterations_frequent_sets_Inr[OF conjunct1])
  from a have n: "n < length levels" and S: "S \<in> set (levels ! n)"
    and U: "U \<subseteq> items S" "U \<noteq> {}" by simp_all
  from level_subsets[OF ml n S U] obtain g where g: "g \<in> set (levels ! (card U - 1))" "items g = U"
    by blast
  have "card U \<le> card (items S)"
    using U(1) level_sound(1)[OF ml n S] by (simp add: card_mono)
  then have j: "card U - 1 < length levels" using level_sound(2)[OF ml n S] n by simp
  from level_sound(3,4)[OF ml j g(1)] g m
  show "\<exists>g\<in>set (levels ! (card U - 1)).
         items g = U \<and> support_value st U = Inr (support g, relative_support g) \<and>
         (\<exists>threshold.
            effective_minimum_support st minimum_support is_relative_support = Inr threshold \<and>
            \<not> (if is_relative_support then relative_support g < threshold
                else real (support g) < threshold))"
    by auto
qed

lemma levels_example:
  "iterations_frequent_sets
     \<lparr>transaction_index = [(''a'', {2, 1}), (''b'', {1})], transaction_count = 2\<rparr> (Finite (1 / 2)) True =
   Inr [[\<lparr>items = {''a''}, support = 2, relative_support = 1\<rparr>,
         \<lparr>items = {''b''}, support = 1, relative_support = 1 / 2\<rparr>],
        [\<lparr>items = {''a'', ''b''}, support = 1, relative_support = 1 / 2\<rparr>]]"
  by code_simp

lemma candidate_example:
  "{''a'', ''b''} \<in> set (candidate_sets
        [\<lparr>items = {''a''}, support = 2, relative_support = 1\<rparr>,
         \<lparr>items = {''b''}, support = 1, relative_support = 1 / 2\<rparr>] 1)"
  by code_simp

theorem downward_closure_witness:
  "{''a''} \<in> set (map items [\<lparr>items = {''a''}, support = 2, relative_support = 1\<rparr>,
         \<lparr>items = {''b''}, support = 1, relative_support = 1 / 2\<rparr>]) \<and>
   (\<exists>g\<in>set ([[\<lparr>items = {''a''}, support = 2, relative_support = 1\<rparr>,
         \<lparr>items = {''b''}, support = 1, relative_support = 1 / 2\<rparr>],
        [\<lparr>items = {''a'', ''b''}, support = 1, relative_support = 1 / 2\<rparr>]] ! (card {''a''} - 1)).
      items g = {''a''} \<and>
      support_value \<lparr>transaction_index = [(''a'', {2, 1}), (''b'', {1})], transaction_count = 2\<rparr>
        {''a''} = Inr (support g, relative_support g) \<and>
      (\<exists>threshold.
         effective_minimum_support
           \<lparr>transaction_index = [(''a'', {2, 1}), (''b'', {1})], transaction_count = 2\<rparr>
           (Finite (1 / 2)) True = Inr threshold \<and>
         \<not> (if True then relative_support g < threshold else real (support g) < threshold)))"
proof -
  note dc = downward_closure[of 1 "{''a'', ''b''}"
      "[\<lparr>items = {''a''}, support = 2, relative_support = 1\<rparr>,
        \<lparr>items = {''b''}, support = 1, relative_support = 1 / 2\<rparr>]" "{''a''}"
      "\<lparr>transaction_index = [(''a'', {2, 1}), (''b'', {1})], transaction_count = 2\<rparr>"
      "Finite (1 / 2)" True
      "[[\<lparr>items = {''a''}, support = 2, relative_support = 1\<rparr>,
         \<lparr>items = {''b''}, support = 1, relative_support = 1 / 2\<rparr>],
        [\<lparr>items = {''a'', ''b''}, support = 1, relative_support = 1 / 2\<rparr>]]"
      1 "\<lparr>items = {''a'', ''b''}, support = 1, relative_support = 1 / 2\<rparr>" "{''a''}"]
  show ?thesis
  proof (rule conjI)
    show "{''a''} \<in> set (map items [\<lparr>items = {''a''}, support = 2, relative_support = 1\<rparr>,
         \<lparr>items = {''b''}, support = 1, relative_support = 1 / 2\<rparr>])"
      by (rule mp[OF conjunct1[OF dc]]) (use candidate_example in simp)
  next
    show "\<exists>g\<in>set ([[\<lparr>items = {''a''}, support = 2, relative_support = 1\<rparr>,
         \<lparr>items = {''b''}, support = 1, relative_support = 1 / 2\<rparr>],
        [\<lparr>items = {''a'', ''b''}, support = 1, relative_support = 1 / 2\<rparr>]] ! (card {''a''} - 1)).
      items g = {''a''} \<and>
      support_value \<lparr>transaction_index = [(''a'', {2, 1}), (''b'', {1})], transaction_count = 2\<rparr>
        {''a''} = Inr (support g, relative_support g) \<and>
      (\<exists>threshold.
         effective_minimum_support
           \<lparr>transaction_index = [(''a'', {2, 1}), (''b'', {1})], transaction_count = 2\<rparr>
           (Finite (1 / 2)) True = Inr threshold \<and>
         \<not> (if True then relative_support g < threshold else real (support g) < threshold))"
      by (rule mp[OF conjunct2[OF dc]]) (use levels_example in simp)
  qed
qed

section \<open>Pruning to maximal item sets\<close>

lemma combinations_1: "c \<in> set (combinations xs (Suc 0)) \<longleftrightarrow> (\<exists>i<length xs. c = [xs ! i])"
proof (induction xs)
  case Nil
  then show ?case by simp
next
  case (Cons x xs)
  have "c \<in> set (combinations (x # xs) (Suc 0)) \<longleftrightarrow> c = [x] \<or> (\<exists>i<length xs. c = [xs ! i])"
    unfolding combinations_Suc_mem Cons.IH by auto
  also have "\<dots> \<longleftrightarrow> (\<exists>i<length (x # xs). c = [(x # xs) ! i])"
  proof
    assume "c = [x] \<or> (\<exists>i<length xs. c = [xs ! i])"
    then show "\<exists>i<length (x # xs). c = [(x # xs) ! i]"
    proof
      assume "c = [x]"
      then have "0 < length (x # xs) \<and> c = [(x # xs) ! 0]" by simp
      then show ?thesis by blast
    next
      assume "\<exists>i<length xs. c = [xs ! i]"
      then obtain i where "i < length xs" "c = [xs ! i]" by blast
      then have "Suc i < length (x # xs) \<and> c = [(x # xs) ! Suc i]" by simp
      then show ?thesis by blast
    qed
  next
    assume "\<exists>i<length (x # xs). c = [(x # xs) ! i]"
    then obtain i where i: "i < length (x # xs)" "c = [(x # xs) ! i]" by blast
    show "c = [x] \<or> (\<exists>i<length xs. c = [xs ! i])"
    proof (cases i)
      case 0
      with i show ?thesis by simp
    next
      case (Suc i')
      with i have "i' < length xs \<and> c = [xs ! i']" by simp
      then show ?thesis by blast
    qed
  qed
  finally show ?case .
qed

lemma combinations_2:
  "c \<in> set (combinations xs (Suc (Suc 0))) \<longleftrightarrow>
     (\<exists>i j. i < j \<and> j < length xs \<and> c = [xs ! i, xs ! j])"
proof (induction xs)
  case Nil
  then show ?case by simp
next
  case (Cons x xs)
  have "c \<in> set (combinations (x # xs) (Suc (Suc 0))) \<longleftrightarrow>
      (\<exists>j<length xs. c = [x, xs ! j]) \<or> (\<exists>i j. i < j \<and> j < length xs \<and> c = [xs ! i, xs ! j])"
    unfolding combinations_Suc_mem[of c x xs "Suc 0"] Cons.IH combinations_1 by auto
  also have "\<dots> \<longleftrightarrow> (\<exists>i j. i < j \<and> j < length (x # xs) \<and> c = [(x # xs) ! i, (x # xs) ! j])"
  proof
    assume "(\<exists>j<length xs. c = [x, xs ! j]) \<or>
        (\<exists>i j. i < j \<and> j < length xs \<and> c = [xs ! i, xs ! j])"
    then show "\<exists>i j. i < j \<and> j < length (x # xs) \<and> c = [(x # xs) ! i, (x # xs) ! j]"
    proof
      assume "\<exists>j<length xs. c = [x, xs ! j]"
      then obtain j where "j < length xs" "c = [x, xs ! j]" by blast
      then have "0 < Suc j \<and> Suc j < length (x # xs) \<and> c = [(x # xs) ! 0, (x # xs) ! Suc j]"
        by simp
      then show ?thesis by blast
    next
      assume "\<exists>i j. i < j \<and> j < length xs \<and> c = [xs ! i, xs ! j]"
      then obtain i j where "i < j" "j < length xs" "c = [xs ! i, xs ! j]" by blast
      then have "Suc i < Suc j \<and> Suc j < length (x # xs) \<and>
          c = [(x # xs) ! Suc i, (x # xs) ! Suc j]" by simp
      then show ?thesis by blast
    qed
  next
    assume "\<exists>i j. i < j \<and> j < length (x # xs) \<and> c = [(x # xs) ! i, (x # xs) ! j]"
    then obtain i j where ij: "i < j" "j < length (x # xs)" "c = [(x # xs) ! i, (x # xs) ! j]"
      by blast
    from ij(1) obtain j' where j': "j = Suc j'" by (cases j) auto
    show "(\<exists>j<length xs. c = [x, xs ! j]) \<or>
        (\<exists>i j. i < j \<and> j < length xs \<and> c = [xs ! i, xs ! j])"
    proof (cases i)
      case 0
      with ij j' have "j' < length xs \<and> c = [x, xs ! j']" by simp
      then show ?thesis by blast
    next
      case (Suc i')
      with ij j' have "i' < j' \<and> j' < length xs \<and> c = [xs ! i', xs ! j']" by simp
      then show ?thesis by blast
    qed
  qed
  finally show ?case .
qed

lemma prune_step_pair:
  "prune_step [(i, s1), (j, s2)] P = (if items s1 \<subseteq> items s2 then insert i P else P)"
  by (auto simp: prune_step_def)

lemma fold_prune_step:
  assumes "\<forall>p\<in>set ps. \<exists>i s1 j s2. p = [(i, s1), (j, s2)]"
  shows "fold prune_step ps P =
     P \<union> {i. \<exists>s1 j s2. [(i, s1), (j, s2)] \<in> set ps \<and> items s1 \<subseteq> items s2}"
  using assms
proof (induction ps arbitrary: P)
  case Nil
  then show ?case by simp
next
  case (Cons p ps)
  from Cons.prems obtain i s1 j s2 where p: "p = [(i, s1), (j, s2)]" by auto
  have rest: "\<forall>p\<in>set ps. \<exists>i s1 j s2. p = [(i, s1), (j, s2)]" using Cons.prems by simp
  have "fold prune_step (p # ps) P = fold prune_step ps (prune_step p P)" by simp
  also have "\<dots> = prune_step p P \<union>
      {i. \<exists>s1 j s2. [(i, s1), (j, s2)] \<in> set ps \<and> items s1 \<subseteq> items s2}"
    by (rule Cons.IH[OF rest])
  also have "\<dots> = P \<union> {i. \<exists>s1 j s2. [(i, s1), (j, s2)] \<in> set (p # ps) \<and> items s1 \<subseteq> items s2}"
    unfolding p prune_step_pair by auto
  finally show ?case .
qed

lemma pruned_sets_eq:
  "pruned_sets True joined =
     {i. \<exists>j. i < j \<and> j < length joined \<and> items (joined ! i) \<subseteq> items (joined ! j)}"
proof -
  let ?ps = "combinations (enumerate 0 joined) 2"
  have mem: "\<And>c. c \<in> set ?ps \<longleftrightarrow>
      (\<exists>i j. i < j \<and> j < length joined \<and> c = [(i, joined ! i), (j, joined ! j)])"
  proof -
    fix c
    have "c \<in> set ?ps \<longleftrightarrow> (\<exists>i j. i < j \<and> j < length (enumerate 0 joined) \<and>
        c = [enumerate 0 joined ! i, enumerate 0 joined ! j])"
      unfolding numeral_2_eq_2 by (rule combinations_2)
    also have "\<dots> \<longleftrightarrow> (\<exists>i j. i < j \<and> j < length joined \<and> c = [(i, joined ! i), (j, joined ! j)])"
    proof -
      have e: "\<And>i j. i < j \<Longrightarrow> j < length joined \<Longrightarrow>
          [enumerate 0 joined ! i, enumerate 0 joined ! j] = [(i, joined ! i), (j, joined ! j)]"
        by (simp add: nth_enumerate_eq)
      show ?thesis
      proof
        assume "\<exists>i j. i < j \<and> j < length (enumerate 0 joined) \<and>
          c = [enumerate 0 joined ! i, enumerate 0 joined ! j]"
        then obtain i j where "i < j" "j < length joined"
          "c = [enumerate 0 joined ! i, enumerate 0 joined ! j]" by auto
        then have "i < j \<and> j < length joined \<and> c = [(i, joined ! i), (j, joined ! j)]"
          using e by simp
        then show "\<exists>i j. i < j \<and> j < length joined \<and> c = [(i, joined ! i), (j, joined ! j)]"
          by blast
      next
        assume "\<exists>i j. i < j \<and> j < length joined \<and> c = [(i, joined ! i), (j, joined ! j)]"
        then obtain i j where "i < j" "j < length joined"
          "c = [(i, joined ! i), (j, joined ! j)]" by auto
        then have "i < j \<and> j < length (enumerate 0 joined) \<and>
          c = [enumerate 0 joined ! i, enumerate 0 joined ! j]"
          using e by simp
        then show "\<exists>i j. i < j \<and> j < length (enumerate 0 joined) \<and>
          c = [enumerate 0 joined ! i, enumerate 0 joined ! j]" by blast
      qed
    qed
    finally show "c \<in> set ?ps \<longleftrightarrow>
      (\<exists>i j. i < j \<and> j < length joined \<and> c = [(i, joined ! i), (j, joined ! j)])" .
  qed
  have shape: "\<forall>p\<in>set ?ps. \<exists>i s1 j s2. p = [(i, s1), (j, s2)]"
    using mem by blast
  have "pruned_sets True joined =
      {i. \<exists>s1 j s2. [(i, s1), (j, s2)] \<in> set ?ps \<and> items s1 \<subseteq> items s2}"
    by (simp add: pruned_sets_def fold_prune_step[OF shape])
  also have "\<dots> = {i. \<exists>j. i < j \<and> j < length joined \<and> items (joined ! i) \<subseteq> items (joined ! j)}"
    unfolding mem by auto
  finally show ?thesis .
qed

lemma set_cleaned_frequent_sets:
  "set (cleaned_frequent_sets prune joined) =
     {joined ! i |i. i < length joined \<and> i \<notin> pruned_sets prune joined}"
proof -
  have "set (cleaned_frequent_sets prune joined) =
      snd ` {p \<in> set (enumerate 0 joined). fst p \<notin> pruned_sets prune joined}"
    by (simp add: cleaned_frequent_sets_def case_prod_unfold)
  also have "\<dots> = {joined ! i |i. i < length joined \<and> i \<notin> pruned_sets prune joined}"
    by (auto simp: in_set_enumerate_eq image_iff)
  finally show ?thesis .
qed

lemma distinct_map_set_combinations:
  "distinct xs \<Longrightarrow> distinct (map set (combinations xs k))"
proof (induction xs k rule: combinations.induct)
  case (1 xs)
  then show ?case by simp
next
  case (2 k)
  then show ?case by simp
next
  case (3 x xs k)
  have x: "x \<notin> set xs" and d: "distinct xs" using 3(3) by simp_all
  have sub: "\<And>c n. c \<in> set (combinations xs n) \<Longrightarrow> x \<notin> set c"
    using combinations_subset x by blast
  have "inj_on (insert x) (set (map set (combinations xs k)))"
  proof (rule inj_onI)
    fix A B
    assume "A \<in> set (map set (combinations xs k))" "B \<in> set (map set (combinations xs k))"
      and eq: "insert x A = insert x B"
    then have "x \<notin> A" "x \<notin> B" using sub by auto
    with eq show "A = B" by (metis insert_ident)
  qed
  with 3(1)[OF d] have a: "distinct (map (insert x) (map set (combinations xs k)))"
    unfolding distinct_map[of "insert x" "map set (combinations xs k)"] by (intro conjI)
  have b: "distinct (map set (combinations xs (Suc k)))" by (rule 3(2)[OF d])
  have c: "set (map (insert x) (map set (combinations xs k))) \<inter>
           set (map set (combinations xs (Suc k))) = {}"
  proof (rule ccontr)
    assume "set (map (insert x) (map set (combinations xs k))) \<inter>
           set (map set (combinations xs (Suc k))) \<noteq> {}"
    then obtain A where "A \<in> set (map (insert x) (map set (combinations xs k)))"
      "A \<in> set (map set (combinations xs (Suc k)))" by blast
    then have "x \<in> A" "x \<notin> A" using sub by auto
    then show False by simp
  qed
  have "map set (combinations (x # xs) (Suc k)) =
      map (insert x) (map set (combinations xs k)) @ map set (combinations xs (Suc k))"
    by simp
  then show ?case using a b c by (simp only: distinct_append)
qed

lemma distinct_candidate_sets: "distinct (candidate_sets sets k)"
proof -
  have "distinct (possible_candidate_sets sets k)"
    unfolding possible_candidate_sets_def by (rule distinct_map_set_combinations) simp
  then show ?thesis by (cases "0 < k") (simp_all add: candidate_sets_def)
qed

lemma current_level_facts:
  assumes "current_iteration_frequent_sets st r m (candidate_sets sets k) = Inr cur"
  shows "distinct (map items cur)" and "\<forall>f\<in>set cur. finite (items f) \<and> card (items f) = k + 1"
proof -
  show "distinct (map items cur)" by (rule cifs_distinct[OF assms distinct_candidate_sets])
  show "\<forall>f\<in>set cur. finite (items f) \<and> card (items f) = k + 1"
  proof
    fix f assume "f \<in> set cur"
    then have "items f \<in> set (candidate_sets sets k)" using cifs_sound[OF assms] by blast
    then have "items f \<in> set (possible_candidate_sets sets k)"
      using candidate_sets_subset by blast
    then show "finite (items f) \<and> card (items f) = k + 1" by (rule possible_candidate_card)
  qed
qed

lemma mine_loop_joined:
  assumes "mine_loop st r m k sets = Inr levels"
  shows "sorted_wrt (\<lambda>a b. card (items a) \<le> card (items b)) (concat levels) \<and>
         distinct (map items (concat levels)) \<and>
         (\<forall>f\<in>set (concat levels). finite (items f) \<and> k + 1 \<le> card (items f))"
  using assms
proof (induction st r m k sets arbitrary: levels rule: mine_loop.induct)
  case (1 st r m k sets)
  from "1.prems" obtain cur where cur:
    "current_iteration_frequent_sets st r m (candidate_sets sets k) = Inr cur"
    by (subst (asm) mine_loop.simps) (auto split: sum.splits)
  show ?case
  proof (cases "0 < length cur")
    case False
    then have "levels = []" using "1.prems" cur by (subst (asm) mine_loop.simps) simp
    then show ?thesis by simp
  next
    case True
    from "1.prems" cur True obtain later where later:
      "mine_loop st r m (k + 1) cur = Inr later" "levels = cur # later"
      by (subst (asm) mine_loop.simps) (auto split: sum.splits)
    note ih = "1.IH"[OF cur True later(1)]
    note cf = current_level_facts[OF cur]
    have s1: "sorted_wrt (\<lambda>a b. card (items a) \<le> card (items b)) cur"
      using cf(2) by (simp add: sorted_wrt_iff_nth_less)
    have s2: "\<forall>a\<in>set cur. \<forall>b\<in>set (concat later). card (items a) \<le> card (items b)"
    proof (intro ballI)
      fix a b assume "a \<in> set cur" "b \<in> set (concat later)"
      then have "card (items a) = k + 1" "k + 1 + 1 \<le> card (items b)" using cf(2) ih by auto
      then show "card (items a) \<le> card (items b)" by simp
    qed
    have d: "set (map items cur) \<inter> set (map items (concat later)) = {}"
    proof (rule ccontr)
      assume "set (map items cur) \<inter> set (map items (concat later)) \<noteq> {}"
      then obtain a b where ab: "a \<in> set cur" "b \<in> set (concat later)" "items a = items b"
        by auto
      then have "card (items a) = k + 1" "k + 1 + 1 \<le> card (items b)" using cf(2) ih by auto
      with ab(3) show False by simp
    qed
    have "sorted_wrt (\<lambda>a b. card (items a) \<le> card (items b)) (cur @ concat later)"
      using s1 s2 ih by (simp add: sorted_wrt_append)
    moreover have "distinct (map items (cur @ concat later))"
      using cf(1) ih d by simp
    moreover have "\<forall>f\<in>set (cur @ concat later). finite (items f) \<and> k + 1 \<le> card (items f)"
    proof
      fix f assume "f \<in> set (cur @ concat later)"
      then have "f \<in> set cur \<or> f \<in> set (concat later)" by simp
      then show "finite (items f) \<and> k + 1 \<le> card (items f)"
      proof
        assume "f \<in> set cur"
        then show ?thesis using cf(2) by simp
      next
        assume "f \<in> set (concat later)"
        then have "finite (items f) \<and> k + 1 + 1 \<le> card (items f)" using ih by blast
        then show ?thesis by simp
      qed
    qed
    ultimately show ?thesis unfolding later(2) by simp
  qed
qed

lemma maximal_indices:
  assumes srt: "sorted_wrt (\<lambda>a b. card (items a) \<le> card (items b)) joined"
    and dst: "distinct (map items joined)"
    and fin: "\<forall>f\<in>set joined. finite (items f)"
  shows "{joined ! i |i. i < length joined \<and> i \<notin> pruned_sets True joined} =
         {x \<in> set joined. \<forall>y\<in>set joined. items x \<subseteq> items y \<longrightarrow> y = x}"
proof -
  have same: "\<And>i j. i < length joined \<Longrightarrow> j < length joined \<Longrightarrow>
      items (joined ! i) = items (joined ! j) \<Longrightarrow> i = j"
  proof -
    fix i j
    assume ij: "i < length joined" "j < length joined" "items (joined ! i) = items (joined ! j)"
    then have eq: "map items joined ! i = map items joined ! j" by simp
    have "(map items joined ! i = map items joined ! j) = (i = j)"
      by (rule nth_eq_iff_index_eq[OF dst]) (simp_all add: ij(1,2))
    with eq show "i = j" by (rule iffD1[rotated])
  qed
  show ?thesis
  proof (intro set_eqI iffI)
    fix x
    assume "x \<in> {joined ! i |i. i < length joined \<and> i \<notin> pruned_sets True joined}"
    then obtain i where i: "x = joined ! i" "i < length joined" "i \<notin> pruned_sets True joined"
      by blast
    have later: "\<And>j. i < j \<Longrightarrow> j < length joined \<Longrightarrow> \<not> items x \<subseteq> items (joined ! j)"
      using i(1,3) unfolding pruned_sets_eq by blast
    have "\<forall>y\<in>set joined. items x \<subseteq> items y \<longrightarrow> y = x"
    proof (intro ballI impI)
      fix y assume y: "y \<in> set joined" "items x \<subseteq> items y"
      then obtain j where j: "j < length joined" "y = joined ! j" by (auto simp: in_set_conv_nth)
      have "\<not> i < j" using later j y(2) by blast
      moreover have "\<not> j < i"
      proof
        assume ji: "j < i"
        have "card (items y) \<le> card (items x)"
          using srt ji i(1,2) j(2) by (simp add: sorted_wrt_iff_nth_less)
        moreover have "finite (items y)" using fin y(1) by blast
        ultimately have "items x = items y" using y(2) by (simp add: card_seteq)
        then have "i = j" using same[OF i(2) j(1)] i(1) j(2) by simp
        with ji show False by simp
      qed
      ultimately have "i = j" by simp
      with i(1) j(2) show "y = x" by simp
    qed
    moreover have "x \<in> set joined" using i(1,2) by simp
    ultimately show "x \<in> {x \<in> set joined. \<forall>y\<in>set joined. items x \<subseteq> items y \<longrightarrow> y = x}"
      by simp
  next
    fix x
    assume "x \<in> {x \<in> set joined. \<forall>y\<in>set joined. items x \<subseteq> items y \<longrightarrow> y = x}"
    then have x: "x \<in> set joined" and mx: "\<forall>y\<in>set joined. items x \<subseteq> items y \<longrightarrow> y = x"
      by simp_all
    from x obtain i where i: "i < length joined" "x = joined ! i" by (auto simp: in_set_conv_nth)
    have "i \<notin> pruned_sets True joined"
    proof
      assume "i \<in> pruned_sets True joined"
      then obtain j where j: "i < j" "j < length joined" "items (joined ! i) \<subseteq> items (joined ! j)"
        unfolding pruned_sets_eq by blast
      then have "joined ! j = x" using mx i(2) by simp
      then have "items (joined ! i) = items (joined ! j)" using i(2) by simp
      then have "i = j" by (rule same[OF i(1) j(2)])
      with j(1) show False by simp
    qed
    with i show "x \<in> {joined ! i |i. i < length joined \<and> i \<notin> pruned_sets True joined}"
      by blast
  qed
qed

text \<open>
  C2: with \<open>prune = True\<close> the returned sequence holds exactly the maximal frequent item sets:
  an item set retained at some level is returned if and only if it is a subset of no other
  retained item set.
\<close>

theorem maximal_pruning:
  assumes "iterations_frequent_sets st minimum_support is_relative_support = Inr levels"
  shows "\<exists>res. get_frequent_item_sets st minimum_support is_relative_support True = Inr res \<and>
           set res = {x \<in> set (concat levels).
                        \<forall>y\<in>set (concat levels). items x \<subseteq> items y \<longrightarrow> y = x}"
proof -
  let ?joined = "concat levels"
  from assms obtain m where ml: "mine_loop st is_relative_support m 0
      (initial_set st is_relative_support) = Inr levels"
    by (rule iterations_frequent_sets_Inr)
  note j = mine_loop_joined[OF ml]
  have fin: "\<forall>f\<in>set ?joined. finite (items f)" using j by blast
  have "get_frequent_item_sets st minimum_support is_relative_support True =
      Inr (py_sorted FrequentSet_lt True (cleaned_frequent_sets True ?joined))"
    by (simp add: get_frequent_item_sets_def assms)
  moreover have "set (py_sorted FrequentSet_lt True (cleaned_frequent_sets True ?joined)) =
      {x \<in> set ?joined. \<forall>y\<in>set ?joined. items x \<subseteq> items y \<longrightarrow> y = x}"
    unfolding set_py_sorted set_cleaned_frequent_sets
    by (rule maximal_indices[OF conjunct1[OF j] conjunct1[OF conjunct2[OF j]] fin])
  ultimately show ?thesis by simp
qed

lemma pruned_example:
  "get_frequent_item_sets
     \<lparr>transaction_index = [(''a'', {2, 1}), (''b'', {1})], transaction_count = 2\<rparr> (Finite (1 / 2)) True True =
   Inr [\<lparr>items = {''a'', ''b''}, support = 1, relative_support = 1 / 2\<rparr>]"
  by code_simp

theorem maximal_pruning_witness:
  "set [\<lparr>items = {''a'', ''b''}, support = 1, relative_support = 1 / 2\<rparr>] =
     {x \<in> set (concat [[\<lparr>items = {''a''}, support = 2, relative_support = 1\<rparr>,
         \<lparr>items = {''b''}, support = 1, relative_support = 1 / 2\<rparr>],
        [\<lparr>items = {''a'', ''b''}, support = 1, relative_support = 1 / 2\<rparr>]]).
        \<forall>y\<in>set (concat [[\<lparr>items = {''a''}, support = 2, relative_support = 1\<rparr>,
         \<lparr>items = {''b''}, support = 1, relative_support = 1 / 2\<rparr>],
        [\<lparr>items = {''a'', ''b''}, support = 1, relative_support = 1 / 2\<rparr>]]).
           items x \<subseteq> items y \<longrightarrow> y = x}"
proof -
  from maximal_pruning[OF levels_example] obtain res where
    r: "get_frequent_item_sets
          \<lparr>transaction_index = [(''a'', {2, 1}), (''b'', {1})], transaction_count = 2\<rparr>
          (Finite (1 / 2)) True True = Inr res"
    and s: "set res =
     {x \<in> set (concat [[\<lparr>items = {''a''}, support = 2, relative_support = 1\<rparr>,
         \<lparr>items = {''b''}, support = 1, relative_support = 1 / 2\<rparr>],
        [\<lparr>items = {''a'', ''b''}, support = 1, relative_support = 1 / 2\<rparr>]]).
        \<forall>y\<in>set (concat [[\<lparr>items = {''a''}, support = 2, relative_support = 1\<rparr>,
         \<lparr>items = {''b''}, support = 1, relative_support = 1 / 2\<rparr>],
        [\<lparr>items = {''a'', ''b''}, support = 1, relative_support = 1 / 2\<rparr>]]).
           items x \<subseteq> items y \<longrightarrow> y = x}"
    by (elim exE conjE)
  from r have "res = [\<lparr>items = {''a'', ''b''}, support = 1, relative_support = 1 / 2\<rparr>]"
    unfolding pruned_example by (simp only: sum.inject)
  with s show ?thesis by (simp only:)
qed

section \<open>The threshold in the search\<close>

lemma frequent_sets_meet_threshold:
  assumes "get_frequent_item_sets st minimum_support is_relative_support prune = Inr res"
    and "f \<in> set res"
  shows "\<exists>threshold.
           effective_minimum_support st minimum_support is_relative_support = Inr threshold \<and>
           (if is_relative_support then threshold \<le> relative_support f
            else threshold \<le> real (support f))"
proof -
  from assms(1) obtain levels where
    lv: "iterations_frequent_sets st minimum_support is_relative_support = Inr levels"
    and res: "res = py_sorted FrequentSet_lt True (cleaned_frequent_sets prune (concat levels))"
    by (auto simp: get_frequent_item_sets_def split: sum.splits)
  from lv obtain m where
    m: "effective_minimum_support st minimum_support is_relative_support = Inr m"
    and ml: "mine_loop st is_relative_support m 0 (initial_set st is_relative_support) = Inr levels"
    by (rule iterations_frequent_sets_Inr)
  from assms(2) have "f \<in> set (cleaned_frequent_sets prune (concat levels))"
    unfolding res set_py_sorted .
  then obtain i where "f = concat levels ! i" "i < length (concat levels)"
    unfolding set_cleaned_frequent_sets by blast
  then have "f \<in> set (concat levels)" by (simp only: nth_mem)
  then obtain l where "l \<in> set levels" "f \<in> set l" by auto
  then obtain n where n: "n < length levels" "f \<in> set (levels ! n)"
    by (auto simp: in_set_conv_nth)
  from level_sound(4)[OF ml n] m show ?thesis by (auto split: if_splits)
qed

text \<open>
  C5, amended: in relative mode a threshold outside \<open>[0, 1]\<close> (NaN and the infinities
  included) is replaced by 1 and one inside is kept. In absolute mode the threshold goes
  through \<open>int\<close> first. A finite threshold is truncated towards zero; the truncated value is
  replaced by the transaction count when it is below 0 or above the count, and used as it is
  otherwise. So a finite threshold of at most \<open>-1\<close> or of at least the count plus one becomes
  the count, and one strictly between \<open>-1\<close> and 0 becomes 0; no finite threshold is rejected
  as an error. With the absolute threshold \<open>-1\<close> every returned item set has a support of at
  least the transaction count. An infinite absolute threshold raises \<open>OverflowError\<close> and NaN
  raises \<open>ValueError\<close>.
\<close>

theorem threshold_clamped:
  "(\<not> (0 \<le> r \<and> r \<le> 1) \<longrightarrow> effective_minimum_support st (Finite r) True = Inr 1) \<and>
   (0 \<le> r \<and> r \<le> 1 \<longrightarrow> effective_minimum_support st (Finite r) True = Inr r) \<and>
   effective_minimum_support st PosInf True = Inr 1 \<and>
   effective_minimum_support st NegInf True = Inr 1 \<and>
   effective_minimum_support st NaN True = Inr 1 \<and>
   effective_minimum_support st (Finite r) False =
     Inr (if truncate_towards_zero r < 0 \<or> int (transaction_count st) < truncate_towards_zero r
          then real (transaction_count st) else real_of_int (truncate_towards_zero r)) \<and>
   (r \<le> - 1 \<or> real (transaction_count st) + 1 \<le> r \<longrightarrow>
      effective_minimum_support st (Finite r) False = Inr (real (transaction_count st))) \<and>
   (- 1 < r \<and> r < 0 \<longrightarrow> effective_minimum_support st (Finite r) False = Inr 0) \<and>
   effective_minimum_support st (Finite (- 1)) False = Inr (real (transaction_count st)) \<and>
   (get_frequent_item_sets st (Finite (- 1)) False prune = Inr res \<and> f \<in> set res \<longrightarrow>
      transaction_count st \<le> support f) \<and>
   effective_minimum_support st PosInf False = Inl OverflowError \<and>
   effective_minimum_support st NegInf False = Inl OverflowError \<and>
   effective_minimum_support st NaN False = Inl ValueError"
proof (intro conjI impI)
  assume "\<not> (0 \<le> r \<and> r \<le> 1)"
  then show "effective_minimum_support st (Finite r) True = Inr 1"
    by (auto simp: effective_relative(1))
next
  assume "0 \<le> r \<and> r \<le> 1"
  then show "effective_minimum_support st (Finite r) True = Inr r"
    by (simp add: effective_relative(1))
next
  show "effective_minimum_support st PosInf True = Inr 1" by (rule effective_relative(2))
  show "effective_minimum_support st NegInf True = Inr 1" by (rule effective_relative(3))
  show "effective_minimum_support st NaN True = Inr 1" by (rule effective_relative(4))
  show "effective_minimum_support st (Finite r) False =
     Inr (if truncate_towards_zero r < 0 \<or> int (transaction_count st) < truncate_towards_zero r
          then real (transaction_count st) else real_of_int (truncate_towards_zero r))"
    by (rule effective_absolute_finite)
  show m1: "effective_minimum_support st (Finite (- 1)) False = Inr (real (transaction_count st))"
    by (rule effective_absolute_clamped) simp
  show "effective_minimum_support st PosInf False = Inl OverflowError"
    by (rule effective_absolute_nonfinite(1))
  show "effective_minimum_support st NegInf False = Inl OverflowError"
    by (rule effective_absolute_nonfinite(2))
  show "effective_minimum_support st NaN False = Inl ValueError"
    by (rule effective_absolute_nonfinite(3))
  {
    assume a: "get_frequent_item_sets st (Finite (- 1)) False prune = Inr res \<and> f \<in> set res"
    from frequent_sets_meet_threshold[OF conjunct1[OF a] conjunct2[OF a]] m1
    show "transaction_count st \<le> support f" by simp
  }
next
  assume "r \<le> - 1 \<or> real (transaction_count st) + 1 \<le> r"
  then show "effective_minimum_support st (Finite r) False = Inr (real (transaction_count st))"
    by (rule effective_absolute_clamped)
next
  assume "- 1 < r \<and> r < 0"
  then show "effective_minimum_support st (Finite r) False = Inr 0"
    by (simp add: effective_absolute_between)
qed

lemma full_coverage_example:
  "get_frequent_item_sets
     \<lparr>transaction_index = [(''a'', {2, 1}), (''b'', {1})], transaction_count = 2\<rparr>
     (Finite (- 1)) False True =
   Inr [\<lparr>items = {''a''}, support = 2, relative_support = 1\<rparr>]"
  by code_simp

theorem threshold_clamped_witness:
  "effective_minimum_support \<lparr>transaction_index = [(''a'', {2, 1}), (''b'', {1})], transaction_count = 2\<rparr>
     (Finite (- 1 / 2)) True = Inr 1 \<and>
   effective_minimum_support \<lparr>transaction_index = [(''a'', {2, 1}), (''b'', {1})], transaction_count = 2\<rparr>
     (Finite (1 / 2)) True = Inr (1 / 2) \<and>
   effective_minimum_support \<lparr>transaction_index = [(''a'', {2, 1}), (''b'', {1})], transaction_count = 2\<rparr>
     (Finite (- 3)) False = Inr 2 \<and>
   effective_minimum_support \<lparr>transaction_index = [(''a'', {2, 1}), (''b'', {1})], transaction_count = 2\<rparr>
     (Finite (- 1 / 2)) False = Inr 0 \<and>
   transaction_count \<lparr>transaction_index = [(''a'', {2, 1}), (''b'', {1})], transaction_count = 2\<rparr>
     \<le> support \<lparr>items = {''a''}, support = 2, relative_support = 1\<rparr>"
proof -
  let ?st = "\<lparr>transaction_index = [(''a'', {2, 1}), (''b'', {1})], transaction_count = 2\<rparr>"
  let ?f = "\<lparr>items = {''a''}, support = 2, relative_support = 1\<rparr>"
  note low = threshold_clamped[of "- 1 / 2" ?st True "[]" ?f]
  note mid = threshold_clamped[of "1 / 2" ?st True "[]" ?f]
  note far = threshold_clamped[of "- 3" ?st True "[]" ?f]
  note full = threshold_clamped[of "- 1" ?st True "[?f]" ?f]
  have w1: "effective_minimum_support ?st (Finite (- 1 / 2)) True = Inr 1"
    by (rule mp[OF conjunct1[OF low]]) simp
  have w2: "effective_minimum_support ?st (Finite (1 / 2)) True = Inr (1 / 2)"
    by (rule mp[OF conjunct1[OF conjunct2[OF mid]]]) simp
  have "effective_minimum_support ?st (Finite (- 3)) False = Inr (real (transaction_count ?st))"
    by (rule mp[OF conjunct1[OF conjunct2[OF conjunct2[OF conjunct2[OF conjunct2[OF conjunct2[OF conjunct2[OF far]]]]]]]]) simp
  then have w3: "effective_minimum_support ?st (Finite (- 3)) False = Inr 2" by simp
  have w4: "effective_minimum_support ?st (Finite (- 1 / 2)) False = Inr 0"
    by (rule mp[OF conjunct1[OF conjunct2[OF conjunct2[OF conjunct2[OF conjunct2[OF conjunct2[OF conjunct2[OF conjunct2[OF low]]]]]]]]]) simp
  have mem: "?f \<in> set [?f]" by simp
  have w5: "transaction_count ?st \<le> support ?f"
    by (rule mp[OF conjunct1[OF conjunct2[OF conjunct2[OF conjunct2[OF conjunct2[OF conjunct2[OF conjunct2[OF conjunct2[OF conjunct2[OF conjunct2[OF full]]]]]]]]]]]) (intro conjI full_coverage_example mem)
  from w1 w2 w3 w4 w5 show ?thesis by (intro conjI)
qed

end
